theory Spec2Isabelle
  imports Main
begin

section \<open>UtilityProcess: exit handling\<close>

text \<open>
  The class \<open>UtilityProcess\<close> owns one Electron utility process. Its fields are the
  attached process object (\<open>undefined\<close> until \<open>start\<close> forks one), the pid captured
  by the spawn event, and the flag \<open>didExit\<close>. What the class emits is kept in the
  state as lists: the payloads fired on the \<open>_onExit\<close> emitter and the lines given
  to the log service. The attached process object counts the \<open>kill()\<close> requests it
  has received.
\<close>

datatype severity = Error | Warning | Info

datatype log_msg =
    ReceivedExit int
  | ReceivedChildProcessGone int string
  | NoRunningProcessToKill
  | KillingTheProcess
  | NoRunningProcessToWaitFor
  | WaitingToExit
  | DidNotExitWithin int
  | ReceivedSpawn

record exit_event =
  pid :: "nat option"
  code :: int

record electron_process =
  kill_requests :: nat

record utility_process =
  process :: "electron_process option"
  processPid :: "nat option"
  didExit :: bool
  onExit :: "exit_event list"
  logged :: "(severity \<times> log_msg) list"

definition log :: "utility_process \<Rightarrow> log_msg \<Rightarrow> severity \<Rightarrow> utility_process" where
  "log s msg sev = s\<lparr>logged := logged s @ [(sev, msg)]\<rparr>"

text \<open>
  \<open>handleDidExit(code)\<close>: returns at once when \<open>didExit\<close> is set; otherwise sets it
  and fires \<open>{ pid: this.processPid, code, signal: 'unknown' }\<close> on \<open>_onExit\<close>.
\<close>

definition handleDidExit :: "utility_process \<Rightarrow> int \<Rightarrow> utility_process" where
  "handleDidExit s c =
     (if didExit s then s
      else (let s1 = s\<lparr>didExit := True\<rparr>
            in s1\<lparr>onExit := onExit s1 @ [\<lparr>pid = processPid s1, code = c\<rparr>]\<rparr>))"

text \<open>
  The two listeners of \<open>registerListeners\<close> that lead to \<open>handleDidExit\<close>: the
  process's own \<open>exit\<close> event, and the application-wide \<open>child-process-gone\<close> event,
  which is taken only when its details name a utility process with this service name.
\<close>

datatype process_type = Utility | OtherProcess

record details =
  dtype :: process_type
  dname :: string
  exitCode :: int
  reason :: string

definition on_exit :: "utility_process \<Rightarrow> int \<Rightarrow> utility_process" where
  "on_exit s c = handleDidExit (log s (ReceivedExit c) Info) c"

definition on_child_process_gone :: "string \<Rightarrow> utility_process \<Rightarrow> details \<Rightarrow> utility_process" where
  "on_child_process_gone serviceName s d =
     (if dtype d = Utility \<and> dname d = serviceName
      then handleDidExit (log s (ReceivedChildProcessGone (exitCode d) (reason d)) Error) (exitCode d)
      else s)"

text \<open>
  \<open>kill()\<close>: warns when no process is attached, otherwise asks the attached process
  to terminate.
\<close>

definition process_kill :: "utility_process \<Rightarrow> utility_process" where
  "process_kill s =
     s\<lparr>process := map_option (\<lambda>p. p\<lparr>kill_requests := Suc (kill_requests p)\<rparr>) (process s)\<rparr>"

definition kill :: "utility_process \<Rightarrow> utility_process" where
  "kill s =
     (case process s of
        None \<Rightarrow> log s NoRunningProcessToKill Warning
      | Some p \<Rightarrow> process_kill (log s KillingTheProcess Info))"

text \<open>
  \<open>waitForExit(maxWaitTimeMs)\<close> is an async function with one \<open>await\<close>, on
  \<open>Promise.race([Event.toPromise(this.onExit), timeout(maxWaitTimeMs)])\<close>. The model
  splits it there. \<open>waitForExit_begin\<close> is the code before the \<open>await\<close>: it gives
  the state and whether the returned promise is already resolved or still pending.
  \<open>waitForExit_resume\<close> is the code after the \<open>await\<close>, run once when the race
  settles.
\<close>

datatype promise = Pending | Resolved

definition waitForExit_begin :: "utility_process \<Rightarrow> int \<Rightarrow> utility_process \<times> promise" where
  "waitForExit_begin s maxWaitTimeMs =
     (case process s of
        None \<Rightarrow> (log s NoRunningProcessToWaitFor Warning, Resolved)
      | Some p \<Rightarrow>
          if didExit s then (s, Resolved)
          else (log s WaitingToExit Info, Pending))"

definition waitForExit_resume :: "utility_process \<Rightarrow> int \<Rightarrow> utility_process" where
  "waitForExit_resume s maxWaitTimeMs =
     (if \<not> didExit s
      then process_kill (log s (DidNotExitWithin maxWaitTimeMs) Info)
      else s)"

text \<open>
  What the event loop can deliver while the promise is pending: the \<open>spawn\<close> event,
  the \<open>exit\<close> event, a \<open>child-process-gone\<close> event, or the timer of
  \<open>timeout(maxWaitTimeMs)\<close>. Each is handled by its listener. The race settles when
  the timer fires or when the listener has fired \<open>_onExit\<close>; the continuation of
  \<open>waitForExit\<close> then runs before any other event is delivered. Once the promise is
  resolved the listeners still run, the continuation does not.
\<close>

datatype env_event =
    Spawn nat
  | ExitEvent int
  | ChildProcessGone details
  | TimeoutElapsed

definition on_spawn :: "utility_process \<Rightarrow> nat \<Rightarrow> utility_process" where
  "on_spawn s p = log (s\<lparr>processPid := Some p\<rparr>) ReceivedSpawn Info"

fun listener :: "string \<Rightarrow> utility_process \<Rightarrow> env_event \<Rightarrow> utility_process" where
  "listener n s (Spawn p) = on_spawn s p"
| "listener n s (ExitEvent c) = on_exit s c"
| "listener n s (ChildProcessGone d) = on_child_process_gone n s d"
| "listener n s TimeoutElapsed = s"

fun deliver :: "string \<Rightarrow> int \<Rightarrow> utility_process \<times> promise \<Rightarrow> env_event \<Rightarrow> utility_process \<times> promise" where
  "deliver n ms (s, Resolved) e = (listener n s e, Resolved)"
| "deliver n ms (s, Pending) TimeoutElapsed = (waitForExit_resume s ms, Resolved)"
| "deliver n ms (s, Pending) e =
     (let s1 = listener n s e
      in if length (onExit s) < length (onExit s1) then (waitForExit_resume s1 ms, Resolved)
         else (s1, Pending))"

definition run :: "string \<Rightarrow> int \<Rightarrow> utility_process \<times> promise \<Rightarrow> env_event list \<Rightarrow> utility_process \<times> promise" where
  "run n ms st es = foldl (deliver n ms) st es"

text \<open>An event that reports the end of the process with service name \<open>n\<close>.\<close>

fun is_exit :: "string \<Rightarrow> env_event \<Rightarrow> bool" where
  "is_exit n (ExitEvent c) = True"
| "is_exit n (ChildProcessGone d) = (dtype d = Utility \<and> dname d = n)"
| "is_exit n e = False"

definition kills :: "utility_process \<Rightarrow> nat" where
  "kills s = (case process s of None \<Rightarrow> 0 | Some p \<Rightarrow> kill_requests p)"

section \<open>TerminalGroupService\<close>

text \<open>
  A terminal instance is identified by its \<open>instanceId\<close>; a terminal group is an
  object, identified by its reference. The service holds the array \<open>groups\<close> of
  group references; the groups themselves live in a store, so that a change made
  through one reference is seen through every other.
\<close>

type_synonym terminal_instance = nat
type_synonym gref = nat

text \<open>
  Modelled from the spec: the class \<open>TerminalGroup\<close> is not part of the sources at
  hand. A group is an ordered sequence of instances with an active instance index
  pointing into it, and it is visible or not.
\<close>

record terminal_group =
  terminalInstances :: "terminal_instance list"
  groupActiveInstanceIndex :: int
  visible :: bool

text \<open>
  What the service fires on its emitters, and the call \<open>focus(true)\<close> on an
  instance. Of the events a group raises on its own, only its disposal is part of
  the model: the constructor subscribes \<open>_removeGroup\<close> to it. The others are
  forwarded by \<open>createGroup\<close> to the instance emitters and reach no code of the
  service.
\<close>

datatype event =
    DidChangeActiveGroup "gref option"
  | DidDisposeGroup gref
  | DidChangeGroups
  | DidChangeActiveInstance "terminal_instance option"
  | DidChangeInstances
  | Focus terminal_instance

datatype error = TypeError | TerminalDoesNotExist nat

text \<open>
  The fields of the service, the store of the group objects, the reference that the
  next \<open>new TerminalGroup\<close> gets, the context key with the group count, and the
  events fired so far, oldest first.
\<close>

record service =
  groups :: "gref list"
  activeGroupIndex :: int
  activeInstanceIndex :: int
  store :: "gref \<Rightarrow> terminal_group"
  nextGroup :: gref
  terminalGroupCountContextKey :: nat
  fired :: "event list"

text \<open>The service as constructed: no groups, both indices -1.\<close>

definition initial :: service where
  "initial = \<lparr>groups = [], activeGroupIndex = -1, activeInstanceIndex = -1,
              store = (\<lambda>_. \<lparr>terminalInstances = [], groupActiveInstanceIndex = -1, visible = False\<rparr>),
              nextGroup = 0, terminalGroupCountContextKey = 0, fired = []\<rparr>"

subsection \<open>Array primitives\<close>

text \<open>\<open>Array.prototype.indexOf\<close>: the first position of the element, -1 when absent.\<close>

fun indexOf :: "'a list \<Rightarrow> 'a \<Rightarrow> int" where
  "indexOf [] x = -1"
| "indexOf (y # ys) x =
     (if y = x then 0
      else (if indexOf ys x = -1 then -1 else indexOf ys x + 1))"

text \<open>
  \<open>Array.prototype.splice(start, deleteCount, ...items)\<close>, the array it leaves: a
  negative start counts from the end, a start beyond the end is the end.
\<close>

definition splice :: "'a list \<Rightarrow> int \<Rightarrow> nat \<Rightarrow> 'a list \<Rightarrow> 'a list" where
  "splice xs start deleteCount items =
     (let len = int (length xs);
          k = nat (if start < 0 then max (len + start) 0 else min start len)
      in take k xs @ items @ drop (k + deleteCount) xs)"

subsection \<open>Emitters\<close>

text \<open>
  Firing an emitter is recorded in \<open>fired\<close>. The constructor subscribes to
  \<open>onDidChangeGroups\<close> a listener that stores \<open>groups.length\<close> in the context key.
\<close>

definition fire :: "event \<Rightarrow> service \<Rightarrow> service" where
  "fire e s = s\<lparr>fired := fired s @ [e]\<rparr>"

definition fire_DidChangeGroups :: "service \<Rightarrow> service" where
  "fire_DidChangeGroups s =
     (fire DidChangeGroups s)\<lparr>terminalGroupCountContextKey := length (groups s)\<rparr>"

subsection \<open>Getters\<close>

definition activeGroup :: "service \<Rightarrow> gref option" where
  "activeGroup s =
     (if activeGroupIndex s < 0 \<or> activeGroupIndex s \<ge> int (length (groups s)) then None
      else Some (groups s ! nat (activeGroupIndex s)))"

text \<open>
  Modelled from the spec: the getter \<open>activeInstance\<close> of the missing class
  \<open>TerminalGroup\<close> gives the instance the active instance index points at, or
  nothing when it points at none.
\<close>

definition group_activeInstance :: "terminal_group \<Rightarrow> terminal_instance option" where
  "group_activeInstance g =
     (if groupActiveInstanceIndex g < 0
         \<or> groupActiveInstanceIndex g \<ge> int (length (terminalInstances g)) then None
      else Some (terminalInstances g ! nat (groupActiveInstanceIndex g)))"

definition activeInstance :: "service \<Rightarrow> terminal_instance option" where
  "activeInstance s =
     (case activeGroup s of None \<Rightarrow> None | Some g \<Rightarrow> group_activeInstance (store s g))"

text \<open>The getter \<open>instances\<close>: every group's instances, in group order.\<close>

definition instances :: "service \<Rightarrow> terminal_instance list" where
  "instances s = foldl (\<lambda>p c. p @ terminalInstances (store s c)) [] (groups s)"

definition getGroupForInstance :: "service \<Rightarrow> terminal_instance \<Rightarrow> gref option" where
  "getGroupForInstance s i =
     find (\<lambda>grp. indexOf (terminalInstances (store s grp)) i \<noteq> -1) (groups s)"

subsection \<open>Creating groups and choosing the active group\<close>

text \<open>
  Modelled from the spec: the constructor of the missing class \<open>TerminalGroup\<close>.
  The new group wraps the instance it is given (the existing one, or the one spawned
  for the launch configuration) and is empty when it is given none.
\<close>

definition new_TerminalGroup :: "terminal_instance option \<Rightarrow> terminal_group" where
  "new_TerminalGroup seed =
     (case seed of
        None \<Rightarrow> \<lparr>terminalInstances = [], groupActiveInstanceIndex = -1, visible = False\<rparr>
      | Some i \<Rightarrow> \<lparr>terminalInstances = [i], groupActiveInstanceIndex = 0, visible = False\<rparr>)"

definition createGroup :: "service \<Rightarrow> terminal_instance option \<Rightarrow> service \<times> gref" where
  "createGroup s slcOrInstance =
     (let grp = nextGroup s;
          s1 = s\<lparr>store := (store s)(grp := new_TerminalGroup slcOrInstance),
                 nextGroup := Suc grp\<rparr>;
          s2 = s1\<lparr>groups := groups s1 @ [grp]\<rparr>;
          s3 = (if length (terminalInstances (store s2 grp)) > 0
                then fire DidChangeInstances s2 else s2);
          s4 = fire_DidChangeGroups s3
      in (s4, grp))"

text \<open>
  \<open>this.groups.forEach((g, i) => g.setVisible(i === k))\<close>, from position \<open>i\<close> on.
  Modelled from the spec: \<open>setVisible\<close> of the missing class \<open>TerminalGroup\<close> sets
  the group's visibility flag.
\<close>

fun forEach_setVisible :: "gref list \<Rightarrow> nat \<Rightarrow> int \<Rightarrow> (gref \<Rightarrow> terminal_group) \<Rightarrow> (gref \<Rightarrow> terminal_group)" where
  "forEach_setVisible [] i k st = st"
| "forEach_setVisible (g # gs) i k st =
     forEach_setVisible gs (Suc i) k (st(g := (st g)\<lparr>visible := (int i = k)\<rparr>))"

definition setActiveGroupByIndex :: "service \<Rightarrow> int \<Rightarrow> service" where
  "setActiveGroupByIndex s index =
     (if index \<ge> int (length (groups s)) then s
      else
        (let oldActiveGroup = activeGroup s;
             s1 = s\<lparr>activeGroupIndex := index\<rparr>
         in if oldActiveGroup \<noteq> activeGroup s1 then
              (let s2 = s1\<lparr>store := forEach_setVisible (groups s1) 0 (activeGroupIndex s1) (store s1)\<rparr>;
                   s3 = fire (DidChangeActiveGroup (activeGroup s2)) s2
               in fire (DidChangeActiveInstance (activeInstance s3)) s3)
            else s1))"

subsection \<open>Removing a group\<close>

text \<open>\<open>this.activeInstance?.focus(true)\<close>\<close>

definition focus_activeInstance :: "service \<Rightarrow> service" where
  "focus_activeInstance s =
     (case activeInstance s of None \<Rightarrow> s | Some i \<Rightarrow> fire (Focus i) s)"

definition removeGroup :: "service \<Rightarrow> gref \<Rightarrow> service" where
  "removeGroup s grp =
     (let wasActiveGroup = (Some grp = activeGroup s);
          index = indexOf (groups s) grp;
          s1 = (if index \<noteq> -1
                then fire_DidChangeGroups (s\<lparr>groups := splice (groups s) index 1 []\<rparr>)
                else s);
          s2 = (if wasActiveGroup \<and> length (groups s1) > 0 then
                  (let newIndex = (if index < int (length (groups s1)) then index
                                   else int (length (groups s1)) - 1)
                   in focus_activeInstance (setActiveGroupByIndex s1 newIndex))
                else if activeGroupIndex s1 \<ge> int (length (groups s1)) then
                  (let newIndex = int (length (groups s1)) - 1
                   in setActiveGroupByIndex s1 newIndex)
                else s1);
          s3 = fire DidChangeInstances s2;
          s4 = (if length (groups s3) = 0 then fire (DidChangeActiveInstance None) s3 else s3);
          s5 = fire_DidChangeGroups s4
      in if wasActiveGroup then fire (DidChangeActiveGroup (activeGroup s5)) s5 else s5)"

subsection \<open>Flat instance indices\<close>

text \<open>An array read \<open>xs[i]\<close>: \<open>undefined\<close> outside the array.\<close>

definition at :: "'a list \<Rightarrow> int \<Rightarrow> 'a option" where
  "at xs i = (if 0 \<le> i \<and> i < int (length xs) then Some (xs ! nat i) else None)"

record instance_location =
  location_group :: gref
  location_groupIndex :: int
  location_instance :: "terminal_instance option"
  location_instanceIndex :: int

function getInstanceLocation_while :: "service \<Rightarrow> int \<Rightarrow> nat \<Rightarrow> instance_location option" where
  "getInstanceLocation_while s index currentGroupIndex =
     (if index \<ge> 0 \<and> currentGroupIndex < length (groups s) then
        (if index < int (length (terminalInstances (store s (groups s ! currentGroupIndex)))) then
           Some \<lparr>location_group = groups s ! currentGroupIndex,
                 location_groupIndex = int currentGroupIndex,
                 location_instance = at (terminalInstances (store s (groups s ! currentGroupIndex))) index,
                 location_instanceIndex = index\<rparr>
         else getInstanceLocation_while s
                (index - int (length (terminalInstances (store s (groups s ! currentGroupIndex)))))
                (Suc currentGroupIndex))
      else None)"
  by pat_completeness auto
termination
  by (relation "measure (\<lambda>(s, index, currentGroupIndex). length (groups s) - currentGroupIndex)") auto

declare getInstanceLocation_while.simps [simp del]

definition getInstanceLocation :: "service \<Rightarrow> int \<Rightarrow> instance_location option" where
  "getInstanceLocation s index = getInstanceLocation_while s index 0"

text \<open>
  The flat index of a position: the instance counts of the groups before position
  \<open>p\<close>, plus the local index \<open>j\<close>. This follows the spec's words (the flat order
  is the concatenation of the groups' instances, in group order).
\<close>

definition flatIndex :: "service \<Rightarrow> nat \<Rightarrow> int \<Rightarrow> int" where
  "flatIndex s p j =
     (\<Sum>g\<leftarrow>take p (groups s). int (length (terminalInstances (store s g)))) + j"

subsection \<open>Choosing the active instance\<close>

text \<open>
  Modelled from the spec: \<open>setActiveInstanceByIndex\<close> of the missing class
  \<open>TerminalGroup\<close>, to which the service delegates the group's own active instance
  index.
\<close>

definition group_setActiveInstanceByIndex :: "terminal_group \<Rightarrow> int \<Rightarrow> terminal_group" where
  "group_setActiveInstanceByIndex g i = g\<lparr>groupActiveInstanceIndex := i\<rparr>"

definition setActiveInstanceByIndex :: "service \<Rightarrow> int \<Rightarrow> service" where
  "setActiveInstanceByIndex s index =
     (case getInstanceLocation s index of
        None \<Rightarrow> s
      | Some instanceLocation \<Rightarrow>
          if activeInstance s
             = at (terminalInstances (store s (location_group instanceLocation)))
                  (location_instanceIndex instanceLocation)
          then s
          else
            (let s1 = s\<lparr>activeInstanceIndex := location_instanceIndex instanceLocation\<rparr>;
                 s2 = s1\<lparr>activeGroupIndex := location_groupIndex instanceLocation\<rparr>;
                 s3 = (if activeGroupIndex s2 \<noteq> location_groupIndex instanceLocation
                       then fire (DidChangeActiveGroup (activeGroup s2)) s2 else s2);
                 s4 = s3\<lparr>store := forEach_setVisible (groups s3) 0
                                     (location_groupIndex instanceLocation) (store s3)\<rparr>
             in s4\<lparr>store := (store s4)
                     (location_group instanceLocation :=
                        group_setActiveInstanceByIndex (store s4 (location_group instanceLocation))
                          (activeInstanceIndex s4))\<rparr>))"

text \<open>
  \<open>_getIndexFromId\<close> throws when no instance has the id. \<open>setActiveInstance\<close> reads
  \<open>instance.instanceId\<close>, which throws a TypeError when the argument is \<open>undefined\<close>
  (as \<open>instances[0]\<close> of an empty array is). A throw is \<open>Inl\<close> of the error and the
  state at the throw.
\<close>

definition getIndexFromId :: "service \<Rightarrow> nat \<Rightarrow> error + int" where
  "getIndexFromId s terminalId =
     (let terminalIndex = indexOf (instances s) terminalId
      in if terminalIndex = -1 then Inl (TerminalDoesNotExist terminalId) else Inr terminalIndex)"

definition setActiveInstance :: "service \<Rightarrow> terminal_instance option \<Rightarrow> (error \<times> service) + service" where
  "setActiveInstance s inst =
     (case inst of
        None \<Rightarrow> Inl (TypeError, s)
      | Some i \<Rightarrow>
          (case getIndexFromId s i of
             Inl e \<Rightarrow> Inl (e, s)
           | Inr index \<Rightarrow> Inr (setActiveInstanceByIndex s index)))"

subsection \<open>Moving a group\<close>

definition moveGroup :: "service \<Rightarrow> terminal_instance \<Rightarrow> terminal_instance \<Rightarrow> service" where
  "moveGroup s source target =
     (case getGroupForInstance s source of
        None \<Rightarrow> s
      | Some sourceGroup \<Rightarrow>
          (case getGroupForInstance s target of
             None \<Rightarrow> s
           | Some targetGroup \<Rightarrow>
               (let sourceGroupIndex = indexOf (groups s) sourceGroup;
                    targetGroupIndex = indexOf (groups s) targetGroup;
                    s1 = s\<lparr>groups := splice (groups s) sourceGroupIndex 1 []\<rparr>;
                    s2 = s1\<lparr>groups := splice (groups s1) targetGroupIndex 0 [sourceGroup]\<rparr>
                in fire DidChangeInstances s2)))"

subsection \<open>Joining instances\<close>

text \<open>
  Modelled from the spec: \<open>removeInstance\<close> and \<open>addInstance\<close> of the missing class
  \<open>TerminalGroup\<close>. Removing detaches the instance from the group; a group that has
  lost its last instance reports that it is disposed, and the service, which
  subscribed \<open>_removeGroup\<close> to that event, removes it. Adding appends the instance
  to the group.
\<close>

definition group_removeInstance :: "service \<Rightarrow> gref \<Rightarrow> terminal_instance \<Rightarrow> service" where
  "group_removeInstance s g i =
     (if i \<notin> set (terminalInstances (store s g)) then s
      else
        (let s1 = s\<lparr>store := (store s)
                      (g := (store s g)\<lparr>terminalInstances := remove1 i (terminalInstances (store s g))\<rparr>)\<rparr>
         in if terminalInstances (store s1 g) = []
            then removeGroup (fire (DidDisposeGroup g) s1) g
            else s1))"

definition group_addInstance :: "service \<Rightarrow> gref \<Rightarrow> terminal_instance \<Rightarrow> service" where
  "group_addInstance s g i =
     s\<lparr>store := (store s)(g := (store s g)\<lparr>terminalInstances := terminalInstances (store s g) @ [i]\<rparr>)\<rparr>"

text \<open>
  The first loop of \<open>joinInstances\<close>: the first listed instance that is the only
  instance of its group, with that group.
\<close>

fun join_candidate :: "service \<Rightarrow> terminal_instance list \<Rightarrow> (terminal_instance \<times> gref) option" where
  "join_candidate s [] = None"
| "join_candidate s (i # is) =
     (case getGroupForInstance s i of
        None \<Rightarrow> join_candidate s is
      | Some grp \<Rightarrow>
          if length (terminalInstances (store s grp)) = 1 then Some (i, grp)
          else join_candidate s is)"

text \<open>
  The second loop: every listed instance other than the candidate leaves its group
  and joins the candidate group; one that is in no group is skipped.
\<close>

fun join_others :: "terminal_instance option \<Rightarrow> gref \<Rightarrow> service \<Rightarrow> terminal_instance list \<Rightarrow> service" where
  "join_others candidateInstance candidateGroup s [] = s"
| "join_others candidateInstance candidateGroup s (i # is) =
     (if Some i = candidateInstance then join_others candidateInstance candidateGroup s is
      else
        (case getGroupForInstance s i of
           None \<Rightarrow> join_others candidateInstance candidateGroup s is
         | Some oldGroup \<Rightarrow>
             join_others candidateInstance candidateGroup
               (group_addInstance (group_removeInstance s oldGroup i) candidateGroup i) is))"

definition joinInstances :: "service \<Rightarrow> terminal_instance list \<Rightarrow> (error \<times> service) + service" where
  "joinInstances s insts =
     (let candidate = join_candidate s insts;
          candidateInstance = map_option fst candidate;
          created = (case candidate of
                       None \<Rightarrow> createGroup s None
                     | Some c \<Rightarrow> (s, snd c));
          s1 = fst created;
          candidateGroup = snd created;
          wasActiveGroup = (activeGroup s1 = Some candidateGroup);
          s2 = join_others candidateInstance candidateGroup s1 insts
      in case setActiveInstance s2 (at insts 0) of
           Inl thrown \<Rightarrow> Inl thrown
         | Inr s3 \<Rightarrow>
             (let s4 = fire DidChangeInstances s3
              in Inr (if \<not> wasActiveGroup then fire (DidChangeActiveGroup (activeGroup s4)) s4
                      else s4)))"

subsection \<open>Sequences of createGroup and group removal\<close>

datatype operation = CreateGroup "terminal_instance option" | RemoveGroup gref

fun apply_operation :: "service \<Rightarrow> operation \<Rightarrow> service" where
  "apply_operation s (CreateGroup seed) = fst (createGroup s seed)"
| "apply_operation s (RemoveGroup g) = removeGroup s g"

definition apply_operations :: "service \<Rightarrow> operation list \<Rightarrow> service" where
  "apply_operations s ops = foldl apply_operation s ops"

subsection \<open>Notions used to state the properties\<close>

text \<open>The number of instances in the groups before position \<open>n\<close>.\<close>

definition count_before :: "service \<Rightarrow> nat \<Rightarrow> int" where
  "count_before s n = (\<Sum>g\<leftarrow>take n (groups s). int (length (terminalInstances (store s g))))"

text \<open>The events fired between a state and a later one.\<close>

definition new_events :: "service \<Rightarrow> service \<Rightarrow> event list" where
  "new_events s s' = drop (length (fired s)) (fired s')"

text \<open>The active group index is -1 or a position of \<open>groups\<close>.\<close>

definition index_ok :: "service \<Rightarrow> bool" where
  "index_ok s \<longleftrightarrow> - 1 \<le> activeGroupIndex s \<and> activeGroupIndex s < int (length (groups s))"

text \<open>
  A service with three groups, \<open>[10, 11]\<close>, \<open>[20]\<close> and \<open>[30, 31]\<close>, the first one
  active and visible.
\<close>

definition example_service :: service where
  "example_service =
     \<lparr>groups = [0, 1, 2], activeGroupIndex = 0, activeInstanceIndex = 0,
      store = (\<lambda>_. \<lparr>terminalInstances = [], groupActiveInstanceIndex = -1, visible = False\<rparr>)
        (0 := \<lparr>terminalInstances = [10, 11], groupActiveInstanceIndex = 0, visible = True\<rparr>,
         1 := \<lparr>terminalInstances = [20], groupActiveInstanceIndex = 0, visible = False\<rparr>,
         2 := \<lparr>terminalInstances = [30, 31], groupActiveInstanceIndex = 0, visible = False\<rparr>),
      nextGroup = 3, terminalGroupCountContextKey = 3, fired = []\<rparr>"

text \<open>
  The invariant of the spec's data model: the groups are distinct objects, no group
  lists an instance twice, and no instance is in two groups.
\<close>

definition wf_groups :: "service \<Rightarrow> bool" where
  "wf_groups s \<longleftrightarrow>
     distinct (groups s)
     \<and> (\<forall>g \<in> set (groups s). distinct (terminalInstances (store s g)))
     \<and> (\<forall>g \<in> set (groups s). \<forall>h \<in> set (groups s).
           g \<noteq> h \<longrightarrow> set (terminalInstances (store s g)) \<inter> set (terminalInstances (store s h)) = {})"

text \<open>A utility process with a process attached that has not exited.\<close>

definition example_process :: utility_process where
  "example_process =
     \<lparr>process = Some \<lparr>kill_requests = 0\<rparr>, processPid = None, didExit = False,
      onExit = [], logged = []\<rparr>"

section \<open>Properties of the exit handling\<close>

lemma handleDidExit_didExit: "didExit (handleDidExit s c)"
  by (simp add: handleDidExit_def Let_def)

lemma handleDidExit_idle: "didExit s \<Longrightarrow> handleDidExit s c = s"
  by (simp add: handleDidExit_def)

lemma handleDidExit_fresh:
  "\<not> didExit s \<Longrightarrow> onExit (handleDidExit s c) = onExit s @ [\<lparr>pid = processPid s, code = c\<rparr>]"
  by (simp add: handleDidExit_def Let_def)

text \<open>
  \<open>didExit\<close> is false from construction and is written by \<open>handleDidExit\<close> alone,
  so it is still false when the first of the two exit sources delivers: no event
  other than an exit of this process changes it.
\<close>

lemma didExit_until_exit:
  "\<forall>e \<in> set es. \<not> is_exit n e \<Longrightarrow> didExit (foldl (listener n) s es) = didExit s"
proof (induction es arbitrary: s)
  case Nil
  show ?case by simp
next
  case (Cons e es)
  then have "\<not> is_exit n e" by simp
  then have "didExit (listener n s e) = didExit s"
    by (cases e) (auto simp: on_spawn_def on_child_process_gone_def log_def)
  with Cons show ?case by simp
qed

text \<open>
  Claim C3: the two exit sources of a utility process, the \<open>exit\<close> event and the
  \<open>child-process-gone\<close> event, each call \<open>handleDidExit\<close>; the first of the two
  calls finds \<open>didExit\<close> false. For every such state and every two exit codes, the
  two calls add exactly one payload to \<open>onExit\<close>, carrying the pid and the code of
  the first call, and the second call leaves the state as the first one left it. The
  same holds when the two calls arrive through the two listeners, in either order.
\<close>

theorem handleDidExit_twice:
  assumes "\<not> didExit s"
  shows "onExit (handleDidExit (handleDidExit s c1) c2) = onExit s @ [\<lparr>pid = processPid s, code = c1\<rparr>]
       \<and> handleDidExit (handleDidExit s c1) c2 = handleDidExit s c1
       \<and> (dtype d = Utility \<and> dname d = n \<longrightarrow>
            onExit (on_child_process_gone n (on_exit s c1) d) = onExit s @ [\<lparr>pid = processPid s, code = c1\<rparr>]
          \<and> onExit (on_exit (on_child_process_gone n s d) c2) = onExit s @ [\<lparr>pid = processPid s, code = exitCode d\<rparr>])"
proof -
  have first: "onExit (handleDidExit s c1) = onExit s @ [\<lparr>pid = processPid s, code = c1\<rparr>]"
    using assms by (rule handleDidExit_fresh)
  have second: "handleDidExit (handleDidExit s c1) c2 = handleDidExit s c1"
    by (rule handleDidExit_idle) (rule handleDidExit_didExit)
  have listeners: "onExit (on_child_process_gone n (on_exit s c1) d) = onExit s @ [\<lparr>pid = processPid s, code = c1\<rparr>]
          \<and> onExit (on_exit (on_child_process_gone n s d) c2) = onExit s @ [\<lparr>pid = processPid s, code = exitCode d\<rparr>]"
    if "dtype d = Utility" "dname d = n"
    using assms that
    by (simp add: on_child_process_gone_def on_exit_def handleDidExit_def log_def Let_def)
  from first second listeners show ?thesis by simp
qed

theorem handleDidExit_twice_witness:
  "onExit (handleDidExit (handleDidExit
      \<lparr>process = Some \<lparr>kill_requests = 0\<rparr>, processPid = Some 7, didExit = False,
       onExit = [], logged = []\<rparr> 1) 2) = [\<lparr>pid = Some 7, code = 1\<rparr>]
   \<and> onExit (on_exit (on_child_process_gone ''ext-1''
      \<lparr>process = Some \<lparr>kill_requests = 0\<rparr>, processPid = Some 7, didExit = False,
       onExit = [], logged = []\<rparr>
      \<lparr>dtype = Utility, dname = ''ext-1'', exitCode = 9, reason = ''killed''\<rparr>) 2)
      = [\<lparr>pid = Some 7, code = 9\<rparr>]"
  using handleDidExit_twice [where s =
      "\<lparr>process = Some \<lparr>kill_requests = 0\<rparr>, processPid = Some 7, didExit = False,
        onExit = [], logged = []\<rparr>"
      and d = "\<lparr>dtype = Utility, dname = ''ext-1'', exitCode = 9, reason = ''killed''\<rparr>"
      and n = "''ext-1''" and ?c1.0 = 1 and ?c2.0 = 2]
  by (simp add: handleDidExit_def on_exit_def on_child_process_gone_def log_def)

subsection \<open>Waiting for the exit\<close>

lemma log_fields [simp]:
  "process (log s m sev) = process s"
  "didExit (log s m sev) = didExit s"
  "onExit (log s m sev) = onExit s"
  by (simp_all add: log_def)

lemma handleDidExit_process [simp]: "process (handleDidExit s c) = process s"
  by (simp add: handleDidExit_def Let_def)

lemma listener_process [simp]: "process (listener n s e) = process s"
  by (cases e) (simp_all add: on_spawn_def on_exit_def on_child_process_gone_def log_def)

lemma kills_listener [simp]: "kills (listener n s e) = kills s"
  by (simp add: kills_def)

lemma run_Resolved:
  "snd (run n ms (s, Resolved) es) = Resolved \<and> kills (fst (run n ms (s, Resolved) es)) = kills s"
  unfolding run_def
  by (induction es arbitrary: s) simp_all

lemma listener_quiet:
  "e \<noteq> TimeoutElapsed \<Longrightarrow> \<not> is_exit n e \<Longrightarrow>
   onExit (listener n s e) = onExit s \<and> didExit (listener n s e) = didExit s"
  by (cases e) (auto simp: on_spawn_def on_child_process_gone_def)

lemma listener_exit:
  "is_exit n e \<Longrightarrow> \<not> didExit s \<Longrightarrow>
   length (onExit s) < length (onExit (listener n s e)) \<and> didExit (listener n s e)"
  by (cases e) (auto simp: on_exit_def on_child_process_gone_def handleDidExit_def log_def Let_def)

lemma run_quiet:
  "\<forall>e \<in> set pre. e \<noteq> TimeoutElapsed \<and> \<not> is_exit n e \<Longrightarrow>
   \<exists>s'. run n ms (s, Pending) pre = (s', Pending) \<and> didExit s' = didExit s \<and> kills s' = kills s
        \<and> (process s' = None \<longleftrightarrow> process s = None)"
  unfolding run_def
proof (induction pre arbitrary: s)
  case Nil
  then show ?case by simp
next
  case (Cons e pre)
  then have quiet: "e \<noteq> TimeoutElapsed" "\<not> is_exit n e" by simp_all
  from listener_quiet[OF quiet] have step: "deliver n ms (s, Pending) e = (listener n s e, Pending)"
    using quiet(1) by (cases e) (simp_all add: Let_def)
  from Cons.prems have "\<forall>e \<in> set pre. e \<noteq> TimeoutElapsed \<and> \<not> is_exit n e" by simp
  from Cons.IH[OF this, of "listener n s e"] step listener_quiet[OF quiet, of s] show ?case
    by auto
qed

lemma run_append: "run n ms st (xs @ ys) = run n ms (run n ms st xs) ys"
  by (simp add: run_def)

lemma run_Cons: "run n ms st (x # xs) = run n ms (deliver n ms st x) xs"
  by (simp add: run_def)

lemma kills_process_kill: "process s \<noteq> None \<Longrightarrow> kills (process_kill s) = Suc (kills s)"
  by (auto simp: kills_def process_kill_def)

lemma kills_log [simp]: "kills (log s m sev) = kills s"
  by (simp add: kills_def)

lemma deliver_timeout:
  "\<not> didExit s \<Longrightarrow> process s \<noteq> None \<Longrightarrow>
   \<exists>s'. deliver n ms (s, Pending) TimeoutElapsed = (s', Resolved) \<and> kills s' = Suc (kills s)"
  by (simp add: waitForExit_resume_def kills_process_kill)

lemma deliver_exit:
  "is_exit n e \<Longrightarrow> \<not> didExit s \<Longrightarrow>
   \<exists>s'. deliver n ms (s, Pending) e = (s', Resolved) \<and> kills s' = kills s"
proof -
  assume e: "is_exit n e" and fresh: "\<not> didExit s"
  from e have "e \<noteq> TimeoutElapsed" by auto
  then have "deliver n ms (s, Pending) e =
     (let s1 = listener n s e
      in if length (onExit s) < length (onExit s1) then (waitForExit_resume s1 ms, Resolved)
         else (s1, Pending))"
    by (cases e) simp_all
  with listener_exit[OF e fresh] show ?thesis
    by (simp add: waitForExit_resume_def Let_def)
qed

text \<open>
  Claim C8: for a utility process with an attached process that has not exited,
  \<open>waitForExit\<close> returns a pending promise. The promise stays pending, and no kill
  is requested, as long as neither the timer nor an exit of this process is
  delivered. When the timer is delivered first, the promise resolves and exactly one
  kill request has been issued, whatever is delivered afterwards. When an exit is
  delivered first, the promise resolves and no kill is requested. With no process
  attached, or with the exit already handled, the promise is resolved at once and no
  kill is ever requested by the call.
\<close>

theorem waitForExit_race:
  "(process s \<noteq> None \<and> \<not> didExit s \<longrightarrow>
      snd (waitForExit_begin s ms) = Pending
    \<and> ((\<forall>e \<in> set pre. e \<noteq> TimeoutElapsed \<and> \<not> is_exit n e) \<longrightarrow>
          snd (run n ms (waitForExit_begin s ms) pre) = Pending
        \<and> kills (fst (run n ms (waitForExit_begin s ms) pre)) = kills s
        \<and> snd (run n ms (waitForExit_begin s ms) (pre @ TimeoutElapsed # post)) = Resolved
        \<and> kills (fst (run n ms (waitForExit_begin s ms) (pre @ TimeoutElapsed # post))) = Suc (kills s)
        \<and> (is_exit n x \<longrightarrow>
              snd (run n ms (waitForExit_begin s ms) (pre @ x # post)) = Resolved
            \<and> kills (fst (run n ms (waitForExit_begin s ms) (pre @ x # post))) = kills s)))
   \<and> (process t = None \<or> didExit t \<longrightarrow>
        snd (waitForExit_begin t ms) = Resolved
      \<and> fst (waitForExit_begin t ms)
          = (if process t = None then log t NoRunningProcessToWaitFor Warning else t)
      \<and> snd (run n ms (waitForExit_begin t ms) es) = Resolved
      \<and> kills (fst (run n ms (waitForExit_begin t ms) es)) = kills t)"
proof (intro conjI impI)
  assume "process t = None \<or> didExit t"
  then have "\<exists>t'. waitForExit_begin t ms = (t', Resolved) \<and> process t' = process t
      \<and> t' = (if process t = None then log t NoRunningProcessToWaitFor Warning else t)"
    by (cases "process t") (auto simp: waitForExit_begin_def)
  then obtain t' where t': "waitForExit_begin t ms = (t', Resolved)" "process t' = process t"
    and left: "t' = (if process t = None then log t NoRunningProcessToWaitFor Warning else t)"
    by blast
  from t' left show "snd (waitForExit_begin t ms) = Resolved"
    "fst (waitForExit_begin t ms)
       = (if process t = None then log t NoRunningProcessToWaitFor Warning else t)"
    by simp_all
  from t' run_Resolved[of n ms t' es]
  show "snd (run n ms (waitForExit_begin t ms) es) = Resolved"
    "kills (fst (run n ms (waitForExit_begin t ms) es)) = kills t"
    by (simp_all add: kills_def)
next
  assume live: "process s \<noteq> None \<and> \<not> didExit s"
  define s0 where "s0 = log s WaitingToExit Info"
  from live have started: "waitForExit_begin s ms = (s0, Pending)"
    by (auto simp: waitForExit_begin_def s0_def)
  from live have s0: "\<not> didExit s0" "process s0 \<noteq> None" "kills s0 = kills s"
    by (simp_all add: s0_def log_def kills_def)
  from started show "snd (waitForExit_begin s ms) = Pending" by simp
  assume quiet: "\<forall>e \<in> set pre. e \<noteq> TimeoutElapsed \<and> \<not> is_exit n e"
  from run_quiet[OF quiet, of ms s0] s0 obtain s1 where
    s1: "run n ms (s0, Pending) pre = (s1, Pending)" "\<not> didExit s1" "kills s1 = kills s" "process s1 \<noteq> None"
    by auto
  from s1 started show "snd (run n ms (waitForExit_begin s ms) pre) = Pending"
    "kills (fst (run n ms (waitForExit_begin s ms) pre)) = kills s"
    by simp_all
  from deliver_timeout[OF s1(2) s1(4), of n ms] obtain s2 where
    s2: "deliver n ms (s1, Pending) TimeoutElapsed = (s2, Resolved)" "kills s2 = Suc (kills s1)"
    by blast
  from started s1 s2 run_Resolved[of n ms s2 post]
  show "snd (run n ms (waitForExit_begin s ms) (pre @ TimeoutElapsed # post)) = Resolved"
    "kills (fst (run n ms (waitForExit_begin s ms) (pre @ TimeoutElapsed # post))) = Suc (kills s)"
    by (simp_all add: run_append run_Cons)
  assume x: "is_exit n x"
  from deliver_exit[OF x s1(2), of ms] obtain s3 where
    s3: "deliver n ms (s1, Pending) x = (s3, Resolved)" "kills s3 = kills s1"
    by blast
  from started s1 s3 run_Resolved[of n ms s3 post]
  show "snd (run n ms (waitForExit_begin s ms) (pre @ x # post)) = Resolved"
    "kills (fst (run n ms (waitForExit_begin s ms) (pre @ x # post))) = kills s"
    by (simp_all add: run_append run_Cons)
qed

lemmas process_defs =
  example_process_def waitForExit_begin_def waitForExit_resume_def run_def on_spawn_def
  on_exit_def on_child_process_gone_def handleDidExit_def process_kill_def log_def kills_def
  Let_def

theorem waitForExit_race_witness:
  "process example_process \<noteq> None \<and> \<not> didExit example_process
   \<and> snd (run ''ext-1'' 100 (waitForExit_begin example_process 100) [Spawn 7]) = Pending
   \<and> kills (fst (run ''ext-1'' 100 (waitForExit_begin example_process 100)
        [Spawn 7, TimeoutElapsed, ExitEvent 0])) = 1
   \<and> snd (run ''ext-1'' 100 (waitForExit_begin example_process 100)
        [Spawn 7, TimeoutElapsed, ExitEvent 0]) = Resolved
   \<and> kills (fst (run ''ext-1'' 100 (waitForExit_begin example_process 100)
        [Spawn 7, ExitEvent 0, TimeoutElapsed])) = 0
   \<and> snd (run ''ext-1'' 100 (waitForExit_begin example_process 100)
        [Spawn 7, ExitEvent 0, TimeoutElapsed]) = Resolved
   \<and> snd (waitForExit_begin (example_process\<lparr>process := None\<rparr>) 100) = Resolved
   \<and> kills (fst (run ''ext-1'' 100 (waitForExit_begin (example_process\<lparr>process := None\<rparr>) 100)
        [TimeoutElapsed])) = 0"
  using waitForExit_race [where s = example_process and ms = 100 and n = "''ext-1''"
      and pre = "[Spawn 7]" and post = "[ExitEvent 0]" and x = "ExitEvent 0"
      and t = "example_process\<lparr>process := None\<rparr>" and es = "[TimeoutElapsed]"]
  by (simp add: process_defs)

section \<open>Properties of the terminal group service\<close>

lemmas eval_defs =
  example_service_def initial_def apply_operations_def createGroup_def removeGroup_def
  setActiveGroupByIndex_def focus_activeInstance_def fire_DidChangeGroups_def fire_def
  activeGroup_def activeInstance_def group_activeInstance_def new_TerminalGroup_def
  splice_def new_events_def getGroupForInstance_def moveGroup_def getInstanceLocation_def
  getInstanceLocation_while.simps flatIndex_def instances_def at_def Let_def

subsection \<open>Array primitives\<close>

lemma indexOf_ge: "- 1 \<le> indexOf xs x"
  by (induction xs) simp_all

lemma indexOf_absent: "indexOf xs x = - 1 \<longleftrightarrow> x \<notin> set xs"
proof (induction xs)
  case Nil
  show ?case by simp
next
  case (Cons y ys)
  have "- 1 \<le> indexOf ys x" by (rule indexOf_ge)
  with Cons show ?case by auto
qed

lemma indexOf_present:
  "x \<in> set xs \<Longrightarrow>
   0 \<le> indexOf xs x \<and> indexOf xs x < int (length xs) \<and> xs ! nat (indexOf xs x) = x"
proof (induction xs)
  case Nil
  then show ?case by simp
next
  case (Cons y ys)
  show ?case
  proof (cases "y = x")
    case True
    then show ?thesis by simp
  next
    case False
    with Cons.prems have mem: "x \<in> set ys" by simp
    then have "indexOf ys x \<noteq> - 1" by (simp add: indexOf_absent)
    with False Cons.IH[OF mem] show ?thesis by (simp add: nat_add_distrib)
  qed
qed

lemma indexOf_nth: "distinct xs \<Longrightarrow> i < length xs \<Longrightarrow> indexOf xs (xs ! i) = int i"
proof (induction xs arbitrary: i)
  case Nil
  then show ?case by simp
next
  case (Cons y ys)
  show ?case
  proof (cases i)
    case 0
    then show ?thesis by simp
  next
    case (Suc k)
    with Cons.prems have k: "k < length ys" and "distinct ys" and "y \<notin> set ys" by simp_all
    then have "ys ! k \<noteq> y" and "indexOf ys (ys ! k) = int k"
      using Cons.IH[of k] nth_mem[of k ys] by auto
    with Suc show ?thesis by simp
  qed
qed

lemma splice_delete_indexOf:
  "x \<in> set xs \<Longrightarrow> splice xs (indexOf xs x) (Suc 0) [] = remove1 x xs"
proof (induction xs)
  case Nil
  then show ?case by simp
next
  case (Cons y ys)
  show ?case
  proof (cases "y = x")
    case True
    then show ?thesis by (simp add: splice_def)
  next
    case False
    with Cons.prems have mem: "x \<in> set ys" by simp
    then have ne: "indexOf ys x \<noteq> - 1" by (simp add: indexOf_absent)
    from indexOf_present[OF mem] have rng: "0 \<le> indexOf ys x" "indexOf ys x < int (length ys)" by simp_all
    from Cons.IH[OF mem] rng have "take (nat (indexOf ys x)) ys @ drop (Suc (nat (indexOf ys x))) ys = remove1 x ys"
      by (simp add: splice_def Let_def min_def)
    with False ne rng show ?thesis
      by (simp add: splice_def Let_def min_def nat_add_distrib)
  qed
qed

lemma splice_insert_nth:
  "0 \<le> k \<Longrightarrow> k \<le> int (length xs) \<Longrightarrow>
   splice xs k 0 [x] = take (nat k) xs @ x # drop (nat k) xs"
  by (simp add: splice_def Let_def min_def)

subsection \<open>What the operations leave unchanged\<close>

lemma forEach_setVisible_other: "g \<notin> set gs \<Longrightarrow> forEach_setVisible gs i k st g = st g"
  by (induction gs arbitrary: i st) simp_all

lemma forEach_setVisible_terminalInstances [simp]:
  "terminalInstances (forEach_setVisible gs i k st g) = terminalInstances (st g)"
  by (induction gs arbitrary: i st) simp_all

lemma forEach_setVisible_groupActiveInstanceIndex [simp]:
  "groupActiveInstanceIndex (forEach_setVisible gs i k st g) = groupActiveInstanceIndex (st g)"
  by (induction gs arbitrary: i st) simp_all

lemma forEach_setVisible_visible:
  "distinct gs \<Longrightarrow> p < length gs \<Longrightarrow>
   visible (forEach_setVisible gs i k st (gs ! p)) = (int (i + p) = k)"
proof (induction gs arbitrary: i st p)
  case Nil
  then show ?case by simp
next
  case (Cons g gs)
  show ?case
  proof (cases p)
    case 0
    with Cons.prems show ?thesis by (simp add: forEach_setVisible_other)
  next
    case (Suc q)
    with Cons.prems have "visible (forEach_setVisible gs (Suc i) k (st(g := (st g)\<lparr>visible := (int i = k)\<rparr>)) (gs ! q))
       = (int (Suc i + q) = k)"
      by (intro Cons.IH) simp_all
    with Suc show ?thesis by simp
  qed
qed

lemma fire_fields [simp]:
  "groups (fire e s) = groups s"
  "activeGroupIndex (fire e s) = activeGroupIndex s"
  "activeInstanceIndex (fire e s) = activeInstanceIndex s"
  "store (fire e s) = store s"
  "nextGroup (fire e s) = nextGroup s"
  "fired (fire e s) = fired s @ [e]"
  by (simp_all add: fire_def)

lemma fire_DidChangeGroups_fields [simp]:
  "groups (fire_DidChangeGroups s) = groups s"
  "activeGroupIndex (fire_DidChangeGroups s) = activeGroupIndex s"
  "activeInstanceIndex (fire_DidChangeGroups s) = activeInstanceIndex s"
  "store (fire_DidChangeGroups s) = store s"
  "nextGroup (fire_DidChangeGroups s) = nextGroup s"
  "fired (fire_DidChangeGroups s) = fired s @ [DidChangeGroups]"
  by (simp_all add: fire_DidChangeGroups_def)

lemma activeGroup_fire [simp]:
  "activeGroup (fire e s) = activeGroup s"
  "activeGroup (fire_DidChangeGroups s) = activeGroup s"
  by (simp_all add: activeGroup_def)

lemma activeInstance_fire [simp]:
  "activeInstance (fire e s) = activeInstance s"
  "activeInstance (fire_DidChangeGroups s) = activeInstance s"
  by (simp_all add: activeInstance_def split: option.splits)

lemma focus_activeInstance_fields [simp]:
  "groups (focus_activeInstance s) = groups s"
  "activeGroupIndex (focus_activeInstance s) = activeGroupIndex s"
  "store (focus_activeInstance s) = store s"
  "nextGroup (focus_activeInstance s) = nextGroup s"
  by (simp_all add: focus_activeInstance_def split: option.splits)

lemma setActiveGroupByIndex_groups [simp]:
  "groups (setActiveGroupByIndex s i) = groups s"
  by (simp add: setActiveGroupByIndex_def Let_def)

lemma setActiveGroupByIndex_nextGroup [simp]:
  "nextGroup (setActiveGroupByIndex s i) = nextGroup s"
  by (simp add: setActiveGroupByIndex_def Let_def)

lemma setActiveGroupByIndex_index:
  "activeGroupIndex (setActiveGroupByIndex s i)
     = (if i \<ge> int (length (groups s)) then activeGroupIndex s else i)"
  by (simp add: setActiveGroupByIndex_def Let_def)

lemma setActiveGroupByIndex_terminalInstances [simp]:
  "terminalInstances (store (setActiveGroupByIndex s i) g) = terminalInstances (store s g)"
  by (simp add: setActiveGroupByIndex_def Let_def)

lemma setActiveGroupByIndex_groupActiveInstanceIndex [simp]:
  "groupActiveInstanceIndex (store (setActiveGroupByIndex s i) g) = groupActiveInstanceIndex (store s g)"
  by (simp add: setActiveGroupByIndex_def Let_def)

text \<open>What \<open>_removeGroup\<close> leaves in \<open>groups\<close> and in \<open>activeGroupIndex\<close>.\<close>

lemma removeGroup_groups: "groups (removeGroup s g) = remove1 g (groups s)"
proof (cases "g \<in> set (groups s)")
  case True
  then have "indexOf (groups s) g \<noteq> - 1" by (simp add: indexOf_absent)
  with True show ?thesis
    by (simp add: removeGroup_def Let_def splice_delete_indexOf)
next
  case False
  then have "indexOf (groups s) g = - 1" by (simp add: indexOf_absent)
  with False show ?thesis
    by (simp add: removeGroup_def Let_def remove1_idem)
qed

lemma removeGroup_terminalInstances [simp]:
  "terminalInstances (store (removeGroup s g) h) = terminalInstances (store s h)"
  by (simp add: removeGroup_def Let_def)

lemma removeGroup_groupActiveInstanceIndex [simp]:
  "groupActiveInstanceIndex (store (removeGroup s g) h) = groupActiveInstanceIndex (store s h)"
  by (simp add: removeGroup_def Let_def)

lemma removeGroup_nextGroup [simp]: "nextGroup (removeGroup s g) = nextGroup s"
  by (simp add: removeGroup_def Let_def)

lemma removeGroup_index:
  "activeGroupIndex (removeGroup s g) =
     (let n = int (length (remove1 g (groups s)))
      in if Some g = activeGroup s \<and> 0 < n
         then (if indexOf (groups s) g < n then indexOf (groups s) g else n - 1)
         else if n \<le> activeGroupIndex s then n - 1 else activeGroupIndex s)"
proof (cases "g \<in> set (groups s)")
  case True
  then have "indexOf (groups s) g \<noteq> - 1" by (simp add: indexOf_absent)
  with True show ?thesis
    by (simp add: removeGroup_def Let_def splice_delete_indexOf setActiveGroupByIndex_index)
next
  case False
  then have "indexOf (groups s) g = - 1" by (simp add: indexOf_absent)
  with False show ?thesis
    by (simp add: removeGroup_def Let_def remove1_idem setActiveGroupByIndex_index)
qed

lemma activeGroup_Some:
  "activeGroup s = Some g \<longleftrightarrow>
     0 \<le> activeGroupIndex s \<and> activeGroupIndex s < int (length (groups s))
     \<and> groups s ! nat (activeGroupIndex s) = g"
  by (auto simp: activeGroup_def)

lemma createGroup_fields:
  "groups (fst (createGroup s seed)) = groups s @ [nextGroup s]"
  "activeGroupIndex (fst (createGroup s seed)) = activeGroupIndex s"
  "snd (createGroup s seed) = nextGroup s"
  by (simp_all add: createGroup_def Let_def)

subsection \<open>The active group index over createGroup and group removal\<close>

lemma index_ok_createGroup: "index_ok s \<Longrightarrow> index_ok (fst (createGroup s seed))"
  by (simp add: index_ok_def createGroup_fields)

lemma index_ok_removeGroup:
  assumes "index_ok s"
  shows "index_ok (removeGroup s g)"
proof (cases "g \<in> set (groups s)")
  case False
  then have "remove1 g (groups s) = groups s" by (simp add: remove1_idem)
  moreover from False have "Some g \<noteq> activeGroup s"
    using nth_mem[of "nat (activeGroupIndex s)" "groups s"] by (auto simp: activeGroup_def)
  ultimately show ?thesis using assms
    by (simp add: index_ok_def removeGroup_index removeGroup_groups Let_def)
next
  case True
  then have len: "length (remove1 g (groups s)) = length (groups s) - 1"
    by (simp add: length_remove1)
  from True have "length (groups s) > 0" by (cases "groups s") auto
  with len have n: "int (length (remove1 g (groups s))) = int (length (groups s)) - 1"
    by (simp add: of_nat_diff Suc_leI)
  from indexOf_present[OF True] have "0 \<le> indexOf (groups s) g" by simp
  with assms n show ?thesis
    by (auto simp: index_ok_def removeGroup_index removeGroup_groups Let_def)
qed

lemma index_ok_apply_operations: "index_ok s \<Longrightarrow> index_ok (apply_operations s ops)"
  unfolding apply_operations_def
proof (induction ops arbitrary: s)
  case Nil
  then show ?case by simp
next
  case (Cons a ops)
  from Cons.prems have "index_ok (apply_operation s a)"
    by (cases a) (simp_all add: index_ok_createGroup index_ok_removeGroup)
  then show ?case by (simp add: Cons.IH)
qed

text \<open>
  Claim C1, as stated: after every sequence of \<open>createGroup\<close> and group removals from
  the empty collection, \<open>activeGroupIndex\<close> is -1 if and only if \<open>groups\<close> is empty.
  \<open>createGroup\<close> appends the group and leaves \<open>activeGroupIndex\<close> alone, so after
  one \<open>createGroup\<close> the index is -1 and \<open>groups\<close> is not empty.
\<close>

theorem activeGroupIndex_empty_iff_counterexample:
  "\<not> (activeGroupIndex (apply_operations initial [CreateGroup (Some 1)]) = - 1
        \<longleftrightarrow> groups (apply_operations initial [CreateGroup (Some 1)]) = [])"
  by (simp add: apply_operations_def createGroup_fields initial_def)

text \<open>
  Claim C1, amended: for every sequence of \<open>createGroup\<close> and group removals,
  started in the empty collection or in any state whose \<open>activeGroupIndex\<close> is -1 or
  a position of \<open>groups\<close>, \<open>activeGroupIndex\<close> is afterwards -1 or a position of
  \<open>groups\<close>, and it is -1 when \<open>groups\<close> is empty.
\<close>

theorem activeGroupIndex_in_range:
  assumes "- 1 \<le> activeGroupIndex s" and "activeGroupIndex s < int (length (groups s))"
  shows "- 1 \<le> activeGroupIndex (apply_operations s ops)
       \<and> activeGroupIndex (apply_operations s ops) < int (length (groups (apply_operations s ops)))
       \<and> (groups (apply_operations s ops) = [] \<longrightarrow> activeGroupIndex (apply_operations s ops) = - 1)"
proof -
  from assms have "index_ok s" by (simp add: index_ok_def)
  then have "index_ok (apply_operations s ops)" by (rule index_ok_apply_operations)
  then show ?thesis by (auto simp: index_ok_def)
qed

theorem activeGroupIndex_in_range_witness:
  "- 1 \<le> activeGroupIndex initial \<and> activeGroupIndex initial < int (length (groups initial))
   \<and> activeGroupIndex (apply_operations initial [CreateGroup (Some 1), CreateGroup None, RemoveGroup 0]) = - 1
   \<and> groups (apply_operations initial [CreateGroup (Some 1), CreateGroup None, RemoveGroup 0]) = [1]
   \<and> - 1 \<le> activeGroupIndex example_service
   \<and> activeGroupIndex example_service < int (length (groups example_service))
   \<and> activeGroupIndex (apply_operations example_service [RemoveGroup 0, RemoveGroup 2, CreateGroup None]) = 0
   \<and> groups (apply_operations example_service [RemoveGroup 0, RemoveGroup 2, CreateGroup None]) = [1, 3]
   \<and> activeGroupIndex (apply_operations example_service [RemoveGroup 0, RemoveGroup 2, RemoveGroup 1]) = - 1
   \<and> groups (apply_operations example_service [RemoveGroup 0, RemoveGroup 2, RemoveGroup 1]) = []"
  using activeGroupIndex_in_range [of initial "[CreateGroup (Some 1), CreateGroup None, RemoveGroup 0]"]
    activeGroupIndex_in_range [of example_service "[RemoveGroup 0, RemoveGroup 2, RemoveGroup 1]"]
  by (simp add: eval_defs)

subsection \<open>Flat indices and locations\<close>

lemma count_before_Suc:
  "n < length (groups s) \<Longrightarrow>
   count_before s (Suc n) = count_before s n + int (length (terminalInstances (store s (groups s ! n))))"
  by (simp add: count_before_def take_Suc_conv_app_nth)

lemma count_before_mono: "m \<le> n \<Longrightarrow> count_before s m \<le> count_before s n"
proof (induction n)
  case 0
  then show ?case by simp
next
  case (Suc n)
  show ?case
  proof (cases "m = Suc n")
    case True
    then show ?thesis by simp
  next
    case False
    with Suc have le: "count_before s m \<le> count_before s n" by simp
    show ?thesis
    proof (cases "n < length (groups s)")
      case True
      with le show ?thesis by (simp add: count_before_Suc)
    next
      case False
      with le show ?thesis by (simp add: count_before_def)
    qed
  qed
qed

lemma instances_concat:
  "instances s = concat (map (\<lambda>g. terminalInstances (store s g)) (groups s))"
proof -
  have "foldl (\<lambda>p c. p @ f c) acc gs = acc @ concat (map f gs)" for f :: "gref \<Rightarrow> terminal_instance list" and acc gs
    by (induction gs arbitrary: acc) simp_all
  then show ?thesis by (simp add: instances_def)
qed

lemma int_sum_list: "int (sum_list (map f xs)) = (\<Sum>x\<leftarrow>xs. int (f x))"
  by (induction xs) simp_all

lemma length_instances: "int (length (instances s)) = count_before s (length (groups s))"
  by (simp add: instances_concat count_before_def length_concat comp_def int_sum_list)

lemma getInstanceLocation_while_Some:
  "getInstanceLocation_while s index cur = Some loc \<Longrightarrow>
   \<exists>p. cur \<le> p \<and> p < length (groups s) \<and> location_groupIndex loc = int p
      \<and> location_group loc = groups s ! p
      \<and> 0 \<le> location_instanceIndex loc
      \<and> location_instanceIndex loc < int (length (terminalInstances (store s (groups s ! p))))
      \<and> location_instance loc = Some (terminalInstances (store s (groups s ! p)) ! nat (location_instanceIndex loc))
      \<and> index + count_before s cur = count_before s p + location_instanceIndex loc"
proof (induction s index cur rule: getInstanceLocation_while.induct)
  case (1 s index cur)
  show ?case
  proof (cases "index \<ge> 0 \<and> cur < length (groups s)")
    case False
    with "1.prems" show ?thesis by (simp add: getInstanceLocation_while.simps)
  next
    case guard: True
    show ?thesis
    proof (cases "index < int (length (terminalInstances (store s (groups s ! cur))))")
      case True
      with guard "1.prems" have "loc = \<lparr>location_group = groups s ! cur,
                 location_groupIndex = int cur,
                 location_instance = at (terminalInstances (store s (groups s ! cur))) index,
                 location_instanceIndex = index\<rparr>" by (simp add: getInstanceLocation_while.simps)
      with guard True show ?thesis by (auto simp: at_def)
    next
      case False
      with guard "1.prems" have rec: "getInstanceLocation_while s
                (index - int (length (terminalInstances (store s (groups s ! cur)))))
                (Suc cur) = Some loc" by (simp add: getInstanceLocation_while.simps)
      from "1.IH"[OF guard False rec] obtain p where p: "Suc cur \<le> p" "p < length (groups s)" "location_groupIndex loc = int p"
      "location_group loc = groups s ! p"
      "0 \<le> location_instanceIndex loc"
      "location_instanceIndex loc < int (length (terminalInstances (store s (groups s ! p))))"
      "location_instance loc = Some (terminalInstances (store s (groups s ! p)) ! nat (location_instanceIndex loc))"
      "index - int (length (terminalInstances (store s (groups s ! cur)))) + count_before s (Suc cur) = count_before s p + location_instanceIndex loc"
        by blast
      from guard p(8) have "index + count_before s cur = count_before s p + location_instanceIndex loc"
        by (simp add: count_before_Suc)
      with p show ?thesis by (intro exI[of _ p]) simp
    qed
  qed
qed

lemma getInstanceLocation_while_at:
  "cur \<le> p \<Longrightarrow> p < length (groups s) \<Longrightarrow> 0 \<le> j
   \<Longrightarrow> j < int (length (terminalInstances (store s (groups s ! p))))
   \<Longrightarrow> index + count_before s cur = count_before s p + j
   \<Longrightarrow> getInstanceLocation_while s index cur
       = Some \<lparr>location_group = groups s ! p, location_groupIndex = int p,
               location_instance = at (terminalInstances (store s (groups s ! p))) j,
               location_instanceIndex = j\<rparr>"
proof (induction s index cur rule: getInstanceLocation_while.induct)
  case (1 s index cur)
  from "1.prems" have mono: "count_before s cur \<le> count_before s p"
    by (simp add: count_before_mono)
  with "1.prems" have guard: "index \<ge> 0 \<and> cur < length (groups s)" by (simp add: getInstanceLocation_while.simps)
  show ?case
  proof (cases "cur = p")
    case True
    with "1.prems" guard show ?thesis by (simp add: getInstanceLocation_while.simps)
  next
    case False
    with "1.prems" have lt: "Suc cur \<le> p" by (simp add: getInstanceLocation_while.simps)
    then have "count_before s (Suc cur) \<le> count_before s p" by (rule count_before_mono)
    with guard "1.prems" have notin: "\<not> index < int (length (terminalInstances (store s (groups s ! cur))))"
      by (simp add: count_before_Suc)
    have "getInstanceLocation_while s
                (index - int (length (terminalInstances (store s (groups s ! cur)))))
                (Suc cur) = Some \<lparr>location_group = groups s ! p, location_groupIndex = int p,
               location_instance = at (terminalInstances (store s (groups s ! p))) j,
               location_instanceIndex = j\<rparr>"
      using "1.prems" guard lt by (intro "1.IH"[OF guard notin]) (simp_all add: count_before_Suc)
    with guard notin show ?thesis by (simp add: getInstanceLocation_while.simps)
  qed
qed

lemma getInstanceLocation_while_None:
  "index < 0 \<or> index + count_before s cur \<ge> count_before s (length (groups s)) \<Longrightarrow>
   getInstanceLocation_while s index cur = None"
proof (induction s index cur rule: getInstanceLocation_while.induct)
  case (1 s index cur)
  show ?case
  proof (cases "index \<ge> 0 \<and> cur < length (groups s)")
    case False
    then show ?thesis by (simp add: getInstanceLocation_while.simps)
  next
    case guard: True
    with "1.prems" have ge: "index + count_before s cur \<ge> count_before s (length (groups s))" by (simp add: getInstanceLocation_while.simps)
    from guard have "count_before s (Suc cur) \<le> count_before s (length (groups s))"
      by (intro count_before_mono) simp
    with ge guard have notin: "\<not> index < int (length (terminalInstances (store s (groups s ! cur))))"
      by (simp add: count_before_Suc)
    have "getInstanceLocation_while s
                (index - int (length (terminalInstances (store s (groups s ! cur)))))
                (Suc cur) = None"
      using ge guard by (intro "1.IH"[OF guard notin]) (simp add: count_before_Suc)
    with guard notin show ?thesis by (simp add: getInstanceLocation_while.simps)
  qed
qed

lemma getInstanceLocation_while_None_only:
  "getInstanceLocation_while s index cur = None \<Longrightarrow> cur \<le> length (groups s) \<Longrightarrow>
   index < 0 \<or> index + count_before s cur \<ge> count_before s (length (groups s))"
proof (induction s index cur rule: getInstanceLocation_while.induct)
  case (1 s index cur)
  show ?case
  proof (cases "index \<ge> 0 \<and> cur < length (groups s)")
    case False
    with "1.prems" show ?thesis by auto
  next
    case guard: True
    with "1.prems" have notin: "\<not> index < int (length (terminalInstances (store s (groups s ! cur))))"
      by (auto simp: getInstanceLocation_while.simps split: if_splits)
    with guard "1.prems" have rec: "getInstanceLocation_while s
          (index - int (length (terminalInstances (store s (groups s ! cur)))))
          (Suc cur) = None" by (simp add: getInstanceLocation_while.simps)
    from "1.IH"[OF guard notin rec] guard notin show ?thesis
      by (auto simp: count_before_Suc)
  qed
qed

text \<open>
  Claim C2: resolving a flat index and recomputing the flat index from the location
  are inverse to each other. If flat index \<open>i\<close> resolves to a location, the location
  is group position \<open>p\<close> with a local index inside that group, and the instance counts
  of the groups before \<open>p\<close> plus the local index give \<open>i\<close> back; conversely the flat
  index of a position \<open>(p, j)\<close> resolves to exactly that position. An index \<open>k\<close> that
  is negative or at least the number of instances resolves to nothing, and every
  other index resolves to a location.
\<close>

theorem getInstanceLocation_inverse:
  "(getInstanceLocation s i = Some loc \<longrightarrow>
      (\<exists>p. p < length (groups s) \<and> location_groupIndex loc = int p
         \<and> location_group loc = groups s ! p
         \<and> 0 \<le> location_instanceIndex loc
         \<and> location_instanceIndex loc < int (length (terminalInstances (store s (groups s ! p))))
         \<and> flatIndex s p (location_instanceIndex loc) = i))
   \<and> (p < length (groups s) \<and> 0 \<le> j
        \<and> j < int (length (terminalInstances (store s (groups s ! p)))) \<longrightarrow>
      getInstanceLocation s (flatIndex s p j)
        = Some \<lparr>location_group = groups s ! p, location_groupIndex = int p,
                location_instance = at (terminalInstances (store s (groups s ! p))) j,
                location_instanceIndex = j\<rparr>)
   \<and> (k < 0 \<or> k \<ge> int (length (instances s)) \<longrightarrow> getInstanceLocation s k = None)
   \<and> (0 \<le> i \<and> i < int (length (instances s)) \<longrightarrow> getInstanceLocation s i \<noteq> None)"
proof (intro conjI impI)
  assume "getInstanceLocation s i = Some loc"
  then have "getInstanceLocation_while s i 0 = Some loc" by (simp add: getInstanceLocation_def)
  from getInstanceLocation_while_Some[OF this] show "\<exists>p. p < length (groups s) \<and> location_groupIndex loc = int p
         \<and> location_group loc = groups s ! p
         \<and> 0 \<le> location_instanceIndex loc
         \<and> location_instanceIndex loc < int (length (terminalInstances (store s (groups s ! p))))
         \<and> flatIndex s p (location_instanceIndex loc) = i"
    by (auto simp: flatIndex_def count_before_def)
next
  assume "p < length (groups s) \<and> 0 \<le> j
        \<and> j < int (length (terminalInstances (store s (groups s ! p))))"
  then show "getInstanceLocation s (flatIndex s p j)
        = Some \<lparr>location_group = groups s ! p, location_groupIndex = int p,
                location_instance = at (terminalInstances (store s (groups s ! p))) j,
                location_instanceIndex = j\<rparr>"
    unfolding getInstanceLocation_def
    by (intro getInstanceLocation_while_at) (simp_all add: flatIndex_def count_before_def)
next
  assume "k < 0 \<or> k \<ge> int (length (instances s))"
  then show "getInstanceLocation s k = None"
    unfolding getInstanceLocation_def
    by (intro getInstanceLocation_while_None) (simp add: length_instances count_before_def)
next
  assume range: "0 \<le> i \<and> i < int (length (instances s))"
  show "getInstanceLocation s i \<noteq> None"
  proof
    assume "getInstanceLocation s i = None"
    then have "getInstanceLocation_while s i 0 = None" by (simp add: getInstanceLocation_def)
    from getInstanceLocation_while_None_only[OF this] range show False
      by (simp add: length_instances count_before_def)
  qed
qed

theorem getInstanceLocation_inverse_witness:
  "getInstanceLocation example_service 2
     = Some \<lparr>location_group = 1, location_groupIndex = 1, location_instance = Some 20,
             location_instanceIndex = 0\<rparr>
   \<and> flatIndex example_service 1 0 = 2
   \<and> getInstanceLocation example_service (flatIndex example_service 2 1)
     = Some \<lparr>location_group = 2, location_groupIndex = 2, location_instance = Some 31,
             location_instanceIndex = 1\<rparr>
   \<and> int (length (instances example_service)) = 5
   \<and> getInstanceLocation example_service 5 = None
   \<and> getInstanceLocation example_service (- 1) = None"
  using getInstanceLocation_inverse [where s = example_service and i = 2 and p = 2 and j = 1
      and k = 5
      and loc = "\<lparr>location_group = 1, location_groupIndex = 1, location_instance = Some 20,
             location_instanceIndex = 0\<rparr>"]
  by (simp add: eval_defs)

subsection \<open>Removing the active group\<close>

lemma activeGroup_distinct_indexOf:
  assumes "activeGroup s = Some g" and "distinct (groups s)"
  shows "indexOf (groups s) g = activeGroupIndex s"
proof -
  from assms(1) have rng: "0 \<le> activeGroupIndex s" "nat (activeGroupIndex s) < length (groups s)"
    and g: "groups s ! nat (activeGroupIndex s) = g"
    by (auto simp: activeGroup_Some)
  from indexOf_nth[OF assms(2) rng(2)] g rng(1) show ?thesis by simp
qed

lemma removeGroup_last_events:
  assumes "activeGroup s = Some g" and "length (groups s) = 1"
  shows "DidChangeActiveInstance None \<in> set (new_events s (removeGroup s g))"
proof -
  from assms have idx: "activeGroupIndex s = 0"
    by (auto simp: activeGroup_Some)
  with assms have gs: "groups s = [g]"
    by (cases "groups s") (auto simp: activeGroup_Some)
  show ?thesis
    by (simp add: new_events_def removeGroup_def Let_def gs idx splice_def
          setActiveGroupByIndex_def activeGroup_def)
qed

text \<open>
  Claim C5: when the removed group is the active group, it is taken out of \<open>groups\<close>.
  If other groups remain, the new \<open>activeGroupIndex\<close> is the removed group's old
  position, or the new last index when the removed group was last, so it is a
  position of the new \<open>groups\<close>. If no group remains, \<open>activeGroupIndex\<close> is -1 and
  the active instance notification fires with no instance. The removed group's
  old position is the old \<open>activeGroupIndex\<close> when no group is listed twice.
\<close>

theorem removeGroup_active:
  assumes "activeGroup s = Some g"
  shows "groups (removeGroup s g) = remove1 g (groups s)
    \<and> (1 < length (groups s) \<longrightarrow>
         activeGroupIndex (removeGroup s g)
           = (if indexOf (groups s) g < int (length (groups s)) - 1 then indexOf (groups s) g
              else int (length (groups s)) - 2)
       \<and> 0 \<le> activeGroupIndex (removeGroup s g)
       \<and> activeGroupIndex (removeGroup s g) < int (length (groups (removeGroup s g))))
    \<and> (length (groups s) = 1 \<longrightarrow>
         groups (removeGroup s g) = [] \<and> activeGroupIndex (removeGroup s g) = - 1
       \<and> DidChangeActiveInstance None \<in> set (new_events s (removeGroup s g)))
    \<and> (distinct (groups s) \<longrightarrow> indexOf (groups s) g = activeGroupIndex s)"
proof -
  from assms have mem: "g \<in> set (groups s)"
    using nth_mem[of "nat (activeGroupIndex s)" "groups s"] by (auto simp: activeGroup_Some)
  then have pos: "0 < length (groups s)" by (cases "groups s") auto
  from mem have "length (remove1 g (groups s)) = length (groups s) - 1"
    by (simp add: length_remove1)
  with pos have n: "int (length (remove1 g (groups s))) = int (length (groups s)) - 1"
    by (simp add: of_nat_diff Suc_leI)
  from indexOf_present[OF mem] have rng: "0 \<le> indexOf (groups s) g" "indexOf (groups s) g < int (length (groups s))"
    by simp_all
  from assms have agi: "0 \<le> activeGroupIndex s" "activeGroupIndex s < int (length (groups s))"
    by (simp_all add: activeGroup_Some)
  have many: "activeGroupIndex (removeGroup s g)
           = (if indexOf (groups s) g < int (length (groups s)) - 1 then indexOf (groups s) g
              else int (length (groups s)) - 2)
       \<and> 0 \<le> activeGroupIndex (removeGroup s g)
       \<and> activeGroupIndex (removeGroup s g) < int (length (groups (removeGroup s g)))"
    if "1 < length (groups s)"
    using that assms n rng by (simp add: removeGroup_index removeGroup_groups Let_def)
  have one: "groups (removeGroup s g) = [] \<and> activeGroupIndex (removeGroup s g) = - 1
       \<and> DidChangeActiveInstance None \<in> set (new_events s (removeGroup s g))"
    if "length (groups s) = 1"
  proof -
    from that n have "remove1 g (groups s) = []" by simp
    with that assms agi removeGroup_last_events[OF assms that] show ?thesis
      by (simp add: removeGroup_index removeGroup_groups Let_def)
  qed
  from many one activeGroup_distinct_indexOf[OF assms] removeGroup_groups[of s g] show ?thesis
    by blast
qed

theorem removeGroup_active_witness:
  "activeGroup example_service = Some 0
   \<and> groups (removeGroup example_service 0) = [1, 2]
   \<and> activeGroupIndex (removeGroup example_service 0) = 0
   \<and> activeGroup (example_service\<lparr>activeGroupIndex := 2\<rparr>) = Some 2
   \<and> groups (removeGroup (example_service\<lparr>activeGroupIndex := 2\<rparr>) 2) = [0, 1]
   \<and> activeGroupIndex (removeGroup (example_service\<lparr>activeGroupIndex := 2\<rparr>) 2) = 1
   \<and> activeGroup (example_service\<lparr>groups := [0]\<rparr>) = Some 0
   \<and> groups (removeGroup (example_service\<lparr>groups := [0]\<rparr>) 0) = []
   \<and> activeGroupIndex (removeGroup (example_service\<lparr>groups := [0]\<rparr>) 0) = - 1
   \<and> DidChangeActiveInstance None
        \<in> set (new_events (example_service\<lparr>groups := [0]\<rparr>) (removeGroup (example_service\<lparr>groups := [0]\<rparr>) 0))"
proof -
  have first: "activeGroup example_service = Some 0" by code_simp
  have last: "activeGroup (example_service\<lparr>activeGroupIndex := 2\<rparr>) = Some 2" by code_simp
  have only: "activeGroup (example_service\<lparr>groups := [0]\<rparr>) = Some 0" by code_simp
  have gs: "groups example_service = [0, 1, 2]" by (simp add: example_service_def)
  from removeGroup_active [OF first] removeGroup_active [OF last] removeGroup_active [OF only]
    first last only gs
  show ?thesis by simp
qed

subsection \<open>setActiveGroupByIndex\<close>

text \<open>
  Claim C7, as stated: \<open>setActiveGroupByIndex(i)\<close> is a no-op for every \<open>i\<close> out of
  bounds, negative ones included. The guard is \<open>index >= this.groups.length\<close> only:
  with -1 the active group index becomes -1, every group is hidden and both
  notifications fire.
\<close>

theorem setActiveGroupByIndex_negative_counterexample:
  "(- 1 :: int) < 0
   \<and> setActiveGroupByIndex example_service (- 1) \<noteq> example_service
   \<and> activeGroupIndex example_service = 0
   \<and> activeGroupIndex (setActiveGroupByIndex example_service (- 1)) = - 1
   \<and> fired (setActiveGroupByIndex example_service (- 1))
       = fired example_service @ [DidChangeActiveGroup None, DidChangeActiveInstance None]
   \<and> visible (store example_service 0)
   \<and> \<not> visible (store (setActiveGroupByIndex example_service (- 1)) 0)"
  by (simp add: setActiveGroupByIndex_def example_service_def Let_def activeGroup_def
        activeInstance_def fire_def)

text \<open>
  Claim C7, amended: \<open>setActiveGroupByIndex(i)\<close> is a no-op for every
  \<open>i >= groups.length\<close>. For every index below \<open>groups.length\<close>, negative ones
  included, \<open>activeGroupIndex\<close> becomes that index; when this leaves the active
  group the same, nothing else changes and nothing fires; when it changes the active
  group, exactly the two notifications fire, with the new active group and its
  active instance, and the group at position \<open>p\<close> is visible exactly when \<open>p\<close> is the
  index (no group being listed twice). A call with the current index changes nothing.
\<close>

theorem setActiveGroupByIndex_cases:
  "(i \<ge> int (length (groups s)) \<longrightarrow> setActiveGroupByIndex s i = s)
   \<and> (j < int (length (groups s)) \<and> activeGroup s = activeGroup (s\<lparr>activeGroupIndex := j\<rparr>) \<longrightarrow>
        setActiveGroupByIndex s j = s\<lparr>activeGroupIndex := j\<rparr>)
   \<and> (k < int (length (groups s)) \<and> activeGroup s \<noteq> activeGroup (s\<lparr>activeGroupIndex := k\<rparr>) \<longrightarrow>
        activeGroupIndex (setActiveGroupByIndex s k) = k
      \<and> groups (setActiveGroupByIndex s k) = groups s
      \<and> new_events s (setActiveGroupByIndex s k)
          = [DidChangeActiveGroup (activeGroup (setActiveGroupByIndex s k)),
             DidChangeActiveInstance (activeInstance (setActiveGroupByIndex s k))]
      \<and> (distinct (groups s) \<longrightarrow>
           (\<forall>p < length (groups s).
              visible (store (setActiveGroupByIndex s k) (groups s ! p)) = (int p = k))))
   \<and> setActiveGroupByIndex s (activeGroupIndex s) = s"
proof (intro conjI impI)
  assume "i \<ge> int (length (groups s))"
  then show "setActiveGroupByIndex s i = s" by (simp add: setActiveGroupByIndex_def)
next
  assume "j < int (length (groups s)) \<and> activeGroup s = activeGroup (s\<lparr>activeGroupIndex := j\<rparr>)"
  then show "setActiveGroupByIndex s j = s\<lparr>activeGroupIndex := j\<rparr>"
    by (simp add: setActiveGroupByIndex_def Let_def)
next
  assume k: "k < int (length (groups s)) \<and> activeGroup s \<noteq> activeGroup (s\<lparr>activeGroupIndex := k\<rparr>)"
  then show "activeGroupIndex (setActiveGroupByIndex s k) = k"
    by (simp add: setActiveGroupByIndex_index)
  show "groups (setActiveGroupByIndex s k) = groups s" by simp
  from k have unfolded: "setActiveGroupByIndex s k =
      (let s2 = s\<lparr>activeGroupIndex := k, store := forEach_setVisible (groups s) 0 k (store s)\<rparr>;
           s3 = fire (DidChangeActiveGroup (activeGroup s2)) s2
       in fire (DidChangeActiveInstance (activeInstance s3)) s3)"
    by (simp add: setActiveGroupByIndex_def Let_def)
  then show "new_events s (setActiveGroupByIndex s k)
          = [DidChangeActiveGroup (activeGroup (setActiveGroupByIndex s k)),
             DidChangeActiveInstance (activeInstance (setActiveGroupByIndex s k))]"
    by (simp add: new_events_def Let_def)
  assume d: "distinct (groups s)"
  show "\<forall>p < length (groups s).
              visible (store (setActiveGroupByIndex s k) (groups s ! p)) = (int p = k)"
  proof (intro allI impI)
    fix p assume "p < length (groups s)"
    from forEach_setVisible_visible[OF d this, of 0 k "store s"] unfolded
    show "visible (store (setActiveGroupByIndex s k) (groups s ! p)) = (int p = k)"
      by (simp add: Let_def)
  qed
next
  show "setActiveGroupByIndex s (activeGroupIndex s) = s"
    by (simp add: setActiveGroupByIndex_def Let_def)
qed

theorem setActiveGroupByIndex_cases_witness:
  "setActiveGroupByIndex example_service 3 = example_service
   \<and> setActiveGroupByIndex example_service 0 = example_service
   \<and> activeGroupIndex (setActiveGroupByIndex example_service 1) = 1
   \<and> new_events example_service (setActiveGroupByIndex example_service 1)
       = [DidChangeActiveGroup (Some 1), DidChangeActiveInstance (Some 20)]
   \<and> \<not> visible (store (setActiveGroupByIndex example_service 1) 0)
   \<and> visible (store (setActiveGroupByIndex example_service 1) 1)
   \<and> \<not> visible (store (setActiveGroupByIndex example_service 1) 2)"
  using setActiveGroupByIndex_cases [where s = example_service and i = 3 and j = 0 and k = 1]
  by (simp add: eval_defs)

subsection \<open>moveGroup\<close>

lemma getGroupForInstance_Some:
  "getGroupForInstance s i = Some g \<Longrightarrow> g \<in> set (groups s) \<and> i \<in> set (terminalInstances (store s g))"
  by (auto simp: getGroupForInstance_def find_Some_iff indexOf_absent)

lemma getGroupForInstance_None:
  "getGroupForInstance s i = None \<longleftrightarrow> (\<forall>g \<in> set (groups s). i \<notin> set (terminalInstances (store s g)))"
  by (auto simp: getGroupForInstance_def find_None_iff indexOf_absent)

lemma remove1_take_drop:
  "x \<in> set xs \<Longrightarrow> remove1 x xs = take (nat (indexOf xs x)) xs @ drop (Suc (nat (indexOf xs x))) xs"
proof -
  assume mem: "x \<in> set xs"
  from indexOf_present[OF mem] splice_delete_indexOf[OF mem] show ?thesis
    by (simp add: splice_def Let_def min_def)
qed

text \<open>
  Claim C6: when \<open>source\<close> and \<open>target\<close> both resolve to groups, \<open>moveGroup\<close> takes
  the source's group out of \<open>groups\<close> and inserts it again at the position the
  target's group had: afterwards the source's group is at that position, the list is
  as long as before, and the other groups are in the order they were in. When either
  instance resolves to no group, the state is unchanged.
\<close>

theorem moveGroup_splice:
  "(getGroupForInstance s source = Some sg \<and> getGroupForInstance s target = Some tg \<longrightarrow>
      groups (moveGroup s source target)
        = take (nat (indexOf (groups s) tg)) (remove1 sg (groups s))
          @ sg # drop (nat (indexOf (groups s) tg)) (remove1 sg (groups s))
    \<and> nat (indexOf (groups s) tg) < length (groups s)
    \<and> groups s ! nat (indexOf (groups s) tg) = tg
    \<and> groups (moveGroup s source target) ! nat (indexOf (groups s) tg) = sg
    \<and> length (groups (moveGroup s source target)) = length (groups s)
    \<and> removeAll sg (groups (moveGroup s source target)) = removeAll sg (groups s))
   \<and> (getGroupForInstance s source' = None \<or> getGroupForInstance s target' = None \<longrightarrow>
        moveGroup s source' target' = s)"
proof (intro conjI impI)
  assume "getGroupForInstance s source' = None \<or> getGroupForInstance s target' = None"
  then show "moveGroup s source' target' = s"
    by (auto simp: moveGroup_def split: option.splits)
next
  assume found: "getGroupForInstance s source = Some sg \<and> getGroupForInstance s target = Some tg"
  then have sg: "sg \<in> set (groups s)" and tg: "tg \<in> set (groups s)"
    using getGroupForInstance_Some by blast+
  let ?t = "nat (indexOf (groups s) tg)"
  let ?rest = "remove1 sg (groups s)"
  from indexOf_present[OF tg] have t: "0 \<le> indexOf (groups s) tg" "?t < length (groups s)" "groups s ! ?t = tg"
    by auto
  from sg have len: "length ?rest = length (groups s) - 1" by (simp add: length_remove1)
  with t have t_le: "?t \<le> length ?rest" by simp
  from found sg t t_le show moved: "groups (moveGroup s source target) = take ?t ?rest @ sg # drop ?t ?rest"
    by (simp add: moveGroup_def Let_def splice_delete_indexOf splice_insert_nth)
  from t show "?t < length (groups s)" "groups s ! ?t = tg" by simp_all
  from moved t_le show "groups (moveGroup s source target) ! ?t = sg"
    by (simp add: nth_append)
  from moved len sg t_le show "length (groups (moveGroup s source target)) = length (groups s)"
    by (cases "groups s") auto
  have "removeAll sg (take ?t ?rest @ sg # drop ?t ?rest)
          = removeAll sg (take ?t ?rest) @ removeAll sg (drop ?t ?rest)"
    by simp
  also have "\<dots> = removeAll sg (take ?t ?rest @ drop ?t ?rest)"
    by (simp only: removeAll_append)
  also have "\<dots> = removeAll sg ?rest"
    by (simp only: append_take_drop_id)
  also have "\<dots> = removeAll sg (groups s)"
    by (simp add: removeAll_filter_not_eq filter_remove1)
  finally show "removeAll sg (groups (moveGroup s source target)) = removeAll sg (groups s)"
    using moved by simp
qed

theorem moveGroup_splice_witness:
  "getGroupForInstance example_service 11 = Some 0
   \<and> getGroupForInstance example_service 30 = Some 2
   \<and> indexOf (groups example_service) 2 = 2
   \<and> groups (moveGroup example_service 11 30) = [1, 2, 0]
   \<and> groups (moveGroup example_service 11 30) ! 2 = 0
   \<and> getGroupForInstance example_service 99 = None
   \<and> moveGroup example_service 99 11 = example_service"
proof -
  have src: "getGroupForInstance example_service 11 = Some 0" by code_simp
  have tgt: "getGroupForInstance example_service 30 = Some 2" by code_simp
  have none: "getGroupForInstance example_service 99 = None" by code_simp
  have idx: "indexOf (groups example_service) 2 = 2" by code_simp
  have gs: "remove1 0 (groups example_service) = [1, 2]" by code_simp
  from moveGroup_splice [where s = example_service and source = 11 and target = 30 and sg = 0
      and tg = 2 and source' = 99 and target' = 11] src tgt none idx gs
  show ?thesis by simp
qed

subsection \<open>setActiveInstanceByIndex and joinInstances\<close>

text \<open>
  Claim C9: \<open>setActiveInstanceByIndex\<close> never fires the active group notification:
  \<open>activeGroupIndex\<close> is assigned the resolved group index before the two are
  compared. This is so even when the call moves the active group, as it does in the
  example service for flat index 2.
\<close>

theorem setActiveInstanceByIndex_no_activeGroup_event:
  "DidChangeActiveGroup g \<notin> set (new_events s (setActiveInstanceByIndex s i))
   \<and> activeGroup example_service = Some 0
   \<and> activeGroup (setActiveInstanceByIndex example_service 2) = Some 1
   \<and> new_events example_service (setActiveInstanceByIndex example_service 2) = []"
proof -
  have "DidChangeActiveGroup g \<notin> set (new_events s (setActiveInstanceByIndex s i))"
    by (simp add: setActiveInstanceByIndex_def new_events_def Let_def split: option.splits)
  moreover have "activeGroup example_service = Some 0
      \<and> activeGroup (setActiveInstanceByIndex example_service 2) = Some 1
      \<and> new_events example_service (setActiveInstanceByIndex example_service 2) = []"
    by (simp add: setActiveInstanceByIndex_def eval_defs)
  ultimately show ?thesis by simp
qed

text \<open>
  Claim C10: \<open>joinInstances([])\<close> does not complete. No listed instance is alone in
  its group, so a new empty group is created and appended; then \<open>instances[0]\<close> is
  \<open>undefined\<close> and \<open>setActiveInstance\<close> throws a TypeError. The state at the throw is
  the state \<open>createGroup\<close> left: \<open>groups\<close> ends with the new group, which is empty.
\<close>

theorem joinInstances_empty_throws:
  "joinInstances s [] = Inl (TypeError, fst (createGroup s None))
   \<and> groups (fst (createGroup s None)) = groups s @ [nextGroup s]
   \<and> terminalInstances (store (fst (createGroup s None)) (nextGroup s)) = []"
  by (simp add: joinInstances_def setActiveInstance_def at_def createGroup_def Let_def
        new_TerminalGroup_def fire_DidChangeGroups_def fire_def)

subsection \<open>Joining three instances\<close>

lemma getGroupForInstance_unique:
  assumes "g \<in> set (groups s)" and "x \<in> set (terminalInstances (store s g))"
    and "\<And>h. h \<in> set (groups s) \<Longrightarrow> x \<in> set (terminalInstances (store s h)) \<Longrightarrow> h = g"
  shows "getGroupForInstance s x = Some g"
proof (cases "getGroupForInstance s x")
  case None
  with assms(1,2) show ?thesis by (auto simp: getGroupForInstance_None)
next
  case (Some h)
  from getGroupForInstance_Some[OF Some] assms(3) Some show ?thesis by auto
qed

lemma group_removeInstance_terminalInstances:
  "terminalInstances (store (group_removeInstance s g x) h)
     = (if h = g then remove1 x (terminalInstances (store s g)) else terminalInstances (store s h))"
  by (simp add: group_removeInstance_def Let_def remove1_idem)

lemma group_removeInstance_groups:
  "groups (group_removeInstance s g x)
     = (if x \<in> set (terminalInstances (store s g)) \<and> remove1 x (terminalInstances (store s g)) = []
        then remove1 g (groups s) else groups s)"
  by (simp add: group_removeInstance_def Let_def removeGroup_groups)

lemma group_removeInstance_nextGroup [simp]:
  "nextGroup (group_removeInstance s g x) = nextGroup s"
  by (simp add: group_removeInstance_def Let_def)

lemma group_addInstance_fields [simp]:
  "groups (group_addInstance s g x) = groups s"
  "nextGroup (group_addInstance s g x) = nextGroup s"
  "activeGroupIndex (group_addInstance s g x) = activeGroupIndex s"
  "terminalInstances (store (group_addInstance s g x) h)
     = (if h = g then terminalInstances (store s g) @ [x] else terminalInstances (store s h))"
  by (simp_all add: group_addInstance_def)

lemma setActiveInstanceByIndex_fields [simp]:
  "groups (setActiveInstanceByIndex s i) = groups s"
  "nextGroup (setActiveInstanceByIndex s i) = nextGroup s"
  "terminalInstances (store (setActiveInstanceByIndex s i) h) = terminalInstances (store s h)"
  by (simp_all add: setActiveInstanceByIndex_def Let_def group_setActiveInstanceByIndex_def
        split: option.splits)

lemma concat_nth:
  "p < length xss \<Longrightarrow> j < length (xss ! p) \<Longrightarrow>
   concat xss ! (sum_list (map length (take p xss)) + j) = xss ! p ! j"
proof (induction xss arbitrary: p)
  case Nil
  then show ?case by simp
next
  case (Cons xs xss)
  show ?case
  proof (cases p)
    case 0
    with Cons.prems show ?thesis by (simp add: nth_append)
  next
    case (Suc q)
    with Cons.prems Cons.IH[of q] show ?thesis by (simp add: nth_append add.assoc)
  qed
qed

lemma count_before_nat:
  "count_before s p = int (sum_list (map length (take p (map (\<lambda>g. terminalInstances (store s g)) (groups s)))))"
  by (simp add: count_before_def take_map comp_def int_sum_list)

lemma instances_nth:
  assumes "p < length (groups s)" and "0 \<le> j"
    and "j < int (length (terminalInstances (store s (groups s ! p))))"
  shows "instances s ! nat (count_before s p + j) = terminalInstances (store s (groups s ! p)) ! nat j"
proof -
  let ?xss = "map (\<lambda>g. terminalInstances (store s g)) (groups s)"
  from assms have "p < length ?xss" "nat j < length (?xss ! p)" by simp_all
  from concat_nth[OF this] assms(1) have "concat ?xss ! (sum_list (map length (take p ?xss)) + nat j)
      = terminalInstances (store s (groups s ! p)) ! nat j" by simp
  moreover from assms(2) have "nat (count_before s p + j) = sum_list (map length (take p ?xss)) + nat j"
    by (simp add: count_before_nat nat_add_distrib)
  ultimately show ?thesis by (simp add: instances_concat)
qed

text \<open>The location that the flat index of a present instance resolves to.\<close>

lemma location_of_instance:
  assumes "x \<in> set (instances s)"
  shows "\<exists>loc p. getInstanceLocation s (indexOf (instances s) x) = Some loc
       \<and> p < length (groups s) \<and> location_group loc = groups s ! p
       \<and> location_groupIndex loc = int p
       \<and> 0 \<le> location_instanceIndex loc
       \<and> location_instanceIndex loc < int (length (terminalInstances (store s (groups s ! p))))
       \<and> terminalInstances (store s (groups s ! p)) ! nat (location_instanceIndex loc) = x"
proof -
  let ?i = "indexOf (instances s) x"
  from indexOf_present[OF assms] have i: "0 \<le> ?i" "?i < int (length (instances s))" "instances s ! nat ?i = x"
    by simp_all
  have "getInstanceLocation_while s ?i 0 \<noteq> None"
  proof
    assume "getInstanceLocation_while s ?i 0 = None"
    from getInstanceLocation_while_None_only[OF this] i show False
      by (simp add: length_instances count_before_def)
  qed
  then obtain loc where loc: "getInstanceLocation_while s ?i 0 = Some loc" by auto
  from getInstanceLocation_while_Some[OF loc] obtain p where
    p: "p < length (groups s)" "location_groupIndex loc = int p" "location_group loc = groups s ! p"
      "0 \<le> location_instanceIndex loc"
      "location_instanceIndex loc < int (length (terminalInstances (store s (groups s ! p))))"
      "?i + count_before s 0 = count_before s p + location_instanceIndex loc"
    by blast
  from p(6) have "?i = count_before s p + location_instanceIndex loc"
    by (simp add: count_before_def)
  with instances_nth[OF p(1) p(4) p(5)] i(3)
  have "terminalInstances (store s (groups s ! p)) ! nat (location_instanceIndex loc) = x" by simp
  with loc p show ?thesis unfolding getInstanceLocation_def by blast
qed


lemma instances_member:
  "x \<in> set (instances s) \<longleftrightarrow> (\<exists>g \<in> set (groups s). x \<in> set (terminalInstances (store s g)))"
  by (auto simp: instances_concat)

lemma setActiveInstanceByIndex_activates:
  assumes loc: "getInstanceLocation s i = Some loc"
    and p: "p < length (groups s)" "location_group loc = groups s ! p" "location_groupIndex loc = int p"
    and j: "at (terminalInstances (store s (groups s ! p))) (location_instanceIndex loc) = Some x"
  shows "activeInstance (setActiveInstanceByIndex s i) = Some x"
proof (cases "activeInstance s = Some x")
  case True
  with loc p j show ?thesis by (simp add: setActiveInstanceByIndex_def)
next
  case False
  from p have "activeGroup (setActiveInstanceByIndex s i) = Some (groups s ! p)"
    using loc j False by (simp add: setActiveInstanceByIndex_def Let_def activeGroup_def)
  moreover have "group_activeInstance (store (setActiveInstanceByIndex s i) (groups s ! p)) = Some x"
    using loc p j False
    by (simp add: setActiveInstanceByIndex_def Let_def group_activeInstance_def
          group_setActiveInstanceByIndex_def at_def split: if_splits)
  ultimately show ?thesis by (simp add: activeInstance_def)
qed

lemma setActiveInstance_joined:
  assumes joined: "terminalInstances (store t gb) = [b, a, c]"
    and gb: "gb \<in> set (groups t)"
    and only: "\<And>h. h \<in> set (groups t) \<Longrightarrow> a \<in> set (terminalInstances (store t h)) \<Longrightarrow> h = gb"
    and ne: "a \<noteq> b" "a \<noteq> c"
  shows "setActiveInstance t (Some a) = Inr (setActiveInstanceByIndex t (indexOf (instances t) a))
       \<and> activeInstance (setActiveInstanceByIndex t (indexOf (instances t) a)) = Some a"
proof -
  from joined have "a \<in> set (terminalInstances (store t gb))" by simp
  with gb have mem: "a \<in> set (instances t)" unfolding instances_member by blast
  then have "indexOf (instances t) a \<noteq> - 1" by (simp add: indexOf_absent)
  then have call: "setActiveInstance t (Some a) = Inr (setActiveInstanceByIndex t (indexOf (instances t) a))"
    by (simp add: setActiveInstance_def getIndexFromId_def Let_def)
  from location_of_instance[OF mem] obtain loc p where
    loc: "getInstanceLocation t (indexOf (instances t) a) = Some loc"
    and p: "p < length (groups t)" "location_group loc = groups t ! p" "location_groupIndex loc = int p"
    and j: "0 \<le> location_instanceIndex loc"
      "location_instanceIndex loc < int (length (terminalInstances (store t (groups t ! p))))"
      "terminalInstances (store t (groups t ! p)) ! nat (location_instanceIndex loc) = a"
    by blast
  from p(1) have "groups t ! p \<in> set (groups t)" by simp
  moreover from j have "a \<in> set (terminalInstances (store t (groups t ! p)))"
    using nth_mem[of "nat (location_instanceIndex loc)" "terminalInstances (store t (groups t ! p))"]
    by auto
  ultimately have "groups t ! p = gb" by (rule only)
  with j have "at (terminalInstances (store t (groups t ! p))) (location_instanceIndex loc) = Some a"
    by (simp add: at_def)
  from setActiveInstanceByIndex_activates[OF loc p this] call show ?thesis by simp
qed


lemma join_others_three:
  assumes wf: "wf_groups s"
    and ne: "a \<noteq> b" "a \<noteq> c" "b \<noteq> c"
    and ga: "getGroupForInstance s a = Some ga"
    and gb: "getGroupForInstance s b = Some gb"
    and gc: "getGroupForInstance s c = Some gc"
    and sole: "length (terminalInstances (store s gb)) = 1"
    and na: "length (terminalInstances (store s ga)) \<noteq> 1"
    and nc: "length (terminalInstances (store s gc)) \<noteq> 1"
  shows "join_candidate s [a, b, c] = Some (b, gb)
     \<and> terminalInstances (store (join_others (Some b) gb s [a, b, c]) gb) = [b, a, c]
     \<and> gb \<in> set (groups (join_others (Some b) gb s [a, b, c]))
     \<and> distinct (groups (join_others (Some b) gb s [a, b, c]))
     \<and> set (groups (join_others (Some b) gb s [a, b, c])) \<subseteq> set (groups s)
     \<and> (\<forall>h \<in> set (groups (join_others (Some b) gb s [a, b, c])). h \<noteq> gb \<longrightarrow>
            a \<notin> set (terminalInstances (store (join_others (Some b) gb s [a, b, c]) h))
          \<and> b \<notin> set (terminalInstances (store (join_others (Some b) gb s [a, b, c]) h))
          \<and> c \<notin> set (terminalInstances (store (join_others (Some b) gb s [a, b, c]) h)))
     \<and> nextGroup (join_others (Some b) gb s [a, b, c]) = nextGroup s
     \<and> a \<notin> set (terminalInstances (store (join_others (Some b) gb s [a, b, c]) ga))
     \<and> c \<notin> set (terminalInstances (store (join_others (Some b) gb s [a, b, c]) gc))"
proof -
  let ?I = "\<lambda>s g. terminalInstances (store s g)"
  from ga have ga_in: "ga \<in> set (groups s)" and a_in: "a \<in> set (?I s ga)"
    by (simp_all add: getGroupForInstance_Some)
  from gb have gb_in: "gb \<in> set (groups s)" and b_in: "b \<in> set (?I s gb)"
    by (simp_all add: getGroupForInstance_Some)
  from gc have gc_in: "gc \<in> set (groups s)" and c_in: "c \<in> set (?I s gc)"
    by (simp_all add: getGroupForInstance_Some)
  from sole b_in have Ib: "?I s gb = [b]"
    by (cases "?I s gb") auto
  from Ib a_in ne have ga_gb: "ga \<noteq> gb" by auto
  from Ib c_in ne have gc_gb: "gc \<noteq> gb" by auto
  from wf have dg: "distinct (groups s)"
    and di: "\<And>g. g \<in> set (groups s) \<Longrightarrow> distinct (?I s g)"
    and unique: "\<And>x g h. g \<in> set (groups s) \<Longrightarrow> h \<in> set (groups s) \<Longrightarrow>
          x \<in> set (?I s g) \<Longrightarrow> x \<in> set (?I s h) \<Longrightarrow> g = h"
    by (auto simp: wf_groups_def)
  from a_in na have rest_a: "remove1 a (?I s ga) \<noteq> []"
    by (cases "?I s ga") (auto split: if_splits)

  define s1 where "s1 = group_removeInstance s ga a"
  define s2 where "s2 = group_addInstance s1 gb a"
  define s3 where "s3 = group_removeInstance s2 gc c"
  define s4 where "s4 = group_addInstance s3 gb c"

  have I1: "?I s1 h = (if h = ga then remove1 a (?I s ga) else ?I s h)" for h
    by (simp add: s1_def group_removeInstance_terminalInstances)
  have G1: "groups s1 = groups s"
    using rest_a by (simp add: s1_def group_removeInstance_groups)
  have I2: "?I s2 h = (if h = gb then [b, a] else ?I s1 h)" for h
    using ga_gb Ib by (simp add: s2_def I1)
  have G2: "groups s2 = groups s" by (simp add: s2_def G1)
  have sub1: "set (?I s1 h) \<subseteq> set (?I s h)" for h
    using set_remove1_subset[of a "?I s ga"] by (simp add: I1)

  have c2: "c \<in> set (?I s2 gc)"
    using gc_gb c_in ne by (auto simp: I2 I1)
  have "getGroupForInstance s2 c = Some gc"
  proof (rule getGroupForInstance_unique)
    show "gc \<in> set (groups s2)" using gc_in by (simp add: G2)
    show "c \<in> set (?I s2 gc)" by (rule c2)
    fix h assume h: "h \<in> set (groups s2)" "c \<in> set (?I s2 h)"
    from h(2) ne have "h \<noteq> gb" by (auto simp: I2)
    with h(2) sub1[of h] have "c \<in> set (?I s h)" by (auto simp: I2)
    with h(1) gc_in c_in show "h = gc" by (auto simp: G2 intro: unique)
  qed
  with ga ne have run: "join_others (Some b) gb s [a, b, c] = s4"
    by (simp add: s1_def s2_def s3_def s4_def)

  have I3: "?I s3 h = (if h = gc then remove1 c (?I s2 gc) else ?I s2 h)" for h
    by (simp add: s3_def group_removeInstance_terminalInstances)
  have G3: "groups s3 = groups s \<or> groups s3 = remove1 gc (groups s)"
    by (simp add: s3_def group_removeInstance_groups G2)
  have I4: "?I s4 h = (if h = gb then [b, a, c] else ?I s3 h)" for h
    using gc_gb by (simp add: s4_def I3 I2)
  have G4: "groups s4 = groups s \<or> groups s4 = remove1 gc (groups s)"
    using G3 by (simp add: s4_def)
  have sub3: "set (?I s3 h) \<subseteq> set (?I s2 h)" for h
    using set_remove1_subset[of c "?I s2 gc"] by (simp add: I3)

  have d2: "distinct (?I s2 gc)"
    using gc_gb di[OF gc_in] by (auto simp: I2 I1)
  have a1: "a \<notin> set (?I s1 h)" if "h \<in> set (groups s)" for h
  proof (cases "h = ga")
    case True
    with di[OF ga_in] show ?thesis by (simp add: I1)
  next
    case False
    with unique[OF that ga_in _ a_in] show ?thesis by (auto simp: I1)
  qed
  have others: "a \<notin> set (?I s4 h) \<and> b \<notin> set (?I s4 h) \<and> c \<notin> set (?I s4 h)"
    if h: "h \<in> set (groups s)" "h \<noteq> gb" for h
  proof -
    from h(2) have eq: "?I s4 h = ?I s3 h" "?I s2 h = ?I s1 h" by (simp_all add: I4 I2)
    from sub3[of h] eq a1[OF h(1)] have "a \<notin> set (?I s4 h)" by auto
    moreover have "b \<notin> set (?I s4 h)"
    proof
      assume "b \<in> set (?I s4 h)"
      with sub3[of h] sub1[of h] eq have "b \<in> set (?I s h)" by auto
      from unique[OF h(1) gb_in this b_in] h(2) show False by simp
    qed
    moreover have "c \<notin> set (?I s4 h)"
    proof (cases "h = gc")
      case True
      with d2 eq show ?thesis by (simp add: I3)
    next
      case False
      show ?thesis
      proof
        assume "c \<in> set (?I s4 h)"
        with sub3[of h] sub1[of h] eq have "c \<in> set (?I s h)" by auto
        from unique[OF h(1) gc_in this c_in] False show False by simp
      qed
    qed
    ultimately show ?thesis by simp
  qed
  have cand: "join_candidate s [a, b, c] = Some (b, gb)"
    using ga gb na sole by simp
  have "terminalInstances (store s4 gb) = [b, a, c]" by (simp add: I4)
  moreover have "gb \<in> set (groups s4)"
    using G4 gb_in gc_gb by auto
  moreover have "distinct (groups s4)"
    using G4 dg by auto
  moreover have subset: "set (groups s4) \<subseteq> set (groups s)"
    using G4 set_remove1_subset[of gc "groups s"] by auto
  moreover have "\<forall>h \<in> set (groups s4). h \<noteq> gb \<longrightarrow>
      a \<notin> set (?I s4 h) \<and> b \<notin> set (?I s4 h) \<and> c \<notin> set (?I s4 h)"
    using others subset by blast
  moreover have "nextGroup s4 = nextGroup s"
    by (simp add: s4_def s3_def s2_def s1_def)
  moreover have "a \<notin> set (?I s4 ga)"
    using others[OF ga_in ga_gb] by simp
  moreover have "c \<notin> set (?I s4 gc)"
    using others[OF gc_in gc_gb] by simp
  ultimately show ?thesis using cand run by simp
qed


lemma filter_single:
  "distinct xs \<Longrightarrow> g \<in> set xs \<Longrightarrow> P g \<Longrightarrow> (\<forall>h \<in> set xs. h \<noteq> g \<longrightarrow> \<not> P h) \<Longrightarrow>
   filter P xs = [g]"
proof (induction xs)
  case Nil
  then show ?case by simp
next
  case (Cons x xs)
  show ?case
  proof (cases "x = g")
    case True
    with Cons.prems have "\<forall>h \<in> set xs. \<not> P h" by auto
    then have "filter P xs = []" by (simp add: filter_empty_conv)
    with True Cons.prems show ?thesis by simp
  next
    case False
    with Cons.prems Cons.IH show ?thesis by auto
  qed
qed

text \<open>
  Claim C4: in a service whose groups are distinct and have disjoint, duplicate-free
  instance lists, let \<open>a\<close>, \<open>b\<close>, \<open>c\<close> be distinct instances, each in a group, \<open>b\<close>
  alone in its group and \<open>a\<close>, \<open>c\<close> not alone in theirs. Then \<open>joinInstances([a, b, c])\<close>
  completes; the destination is the group \<open>b\<close> was in, found by the first loop, and
  no group is created; afterwards that group holds \<open>b, a, c\<close> and is the only listed
  group whose instances are exactly \<open>{a, b, c}\<close>; \<open>a\<close> is the active instance; and
  \<open>a\<close> and \<open>c\<close> are no longer in the groups they came from.
\<close>

theorem joinInstances_three:
  assumes wf: "wf_groups s"
    and ac: "a \<noteq> c"
    and ga: "getGroupForInstance s a = Some ga"
    and gb: "getGroupForInstance s b = Some gb"
    and gc: "getGroupForInstance s c = Some gc"
    and sole: "length (terminalInstances (store s gb)) = 1"
    and na: "length (terminalInstances (store s ga)) \<noteq> 1"
    and nc: "length (terminalInstances (store s gc)) \<noteq> 1"
  shows "\<exists>s'. joinInstances s [a, b, c] = Inr s'
     \<and> terminalInstances (store s' gb) = [b, a, c]
     \<and> filter (\<lambda>g. set (terminalInstances (store s' g)) = {a, b, c}) (groups s') = [gb]
     \<and> activeInstance s' = Some a
     \<and> join_candidate s [a, b, c] = Some (b, gb)
     \<and> set (groups s') \<subseteq> set (groups s)
     \<and> nextGroup s' = nextGroup s
     \<and> a \<notin> set (terminalInstances (store s' ga))
     \<and> c \<notin> set (terminalInstances (store s' gc))"
proof -
  from ga gb sole na have ab: "a \<noteq> b" by auto
  from gc gb sole nc have bc: "b \<noteq> c" by auto
  note ne = ab ac bc
  define t where "t = join_others (Some b) gb s [a, b, c]"
  from join_others_three[OF wf ne ga gb gc sole na nc] have
    cand: "join_candidate s [a, b, c] = Some (b, gb)"
    and joined: "terminalInstances (store t gb) = [b, a, c]"
    and gb_in: "gb \<in> set (groups t)"
    and dist: "distinct (groups t)"
    and sub: "set (groups t) \<subseteq> set (groups s)"
    and others: "\<forall>h \<in> set (groups t). h \<noteq> gb \<longrightarrow>
            a \<notin> set (terminalInstances (store t h))
          \<and> b \<notin> set (terminalInstances (store t h))
          \<and> c \<notin> set (terminalInstances (store t h))"
    and nextg: "nextGroup t = nextGroup s"
    and a_out: "a \<notin> set (terminalInstances (store t ga))"
    and c_out: "c \<notin> set (terminalInstances (store t gc))"
    unfolding t_def by blast+
  define u where "u = setActiveInstanceByIndex t (indexOf (instances t) a)"
  from others have only: "\<And>h. h \<in> set (groups t) \<Longrightarrow> a \<in> set (terminalInstances (store t h)) \<Longrightarrow> h = gb"
    by blast
  from setActiveInstance_joined[OF joined gb_in only ne(1,2)]
  have act: "setActiveInstance t (Some a) = Inr u" "activeInstance u = Some a"
    by (simp_all add: u_def)
  define s' where "s' = (let s4 = fire DidChangeInstances u
      in if \<not> (activeGroup s = Some gb) then fire (DidChangeActiveGroup (activeGroup s4)) s4 else s4)"
  from act(1) have result: "joinInstances s [a, b, c] = Inr s'"
    unfolding joinInstances_def cand
    by (simp add: s'_def t_def[symmetric] at_def Let_def
          del: join_others.simps join_candidate.simps)
  have frame: "groups s' = groups t" "nextGroup s' = nextGroup t"
    "\<And>h. terminalInstances (store s' h) = terminalInstances (store t h)"
    "activeInstance s' = activeInstance u"
    by (simp_all add: s'_def u_def Let_def)
  have "filter (\<lambda>g. set (terminalInstances (store t g)) = {a, b, c}) (groups t) = [gb]"
  proof (rule filter_single[OF dist gb_in])
    from joined show "set (terminalInstances (store t gb)) = {a, b, c}" by auto
    from others show "\<forall>h \<in> set (groups t). h \<noteq> gb \<longrightarrow> set (terminalInstances (store t h)) \<noteq> {a, b, c}"
      by blast
  qed
  with result frame act(2) cand joined sub nextg a_out c_out show ?thesis
    by (intro exI[of _ s']) simp
qed

theorem joinInstances_three_witness:
  "wf_groups example_service
   \<and> getGroupForInstance example_service 10 = Some 0
   \<and> getGroupForInstance example_service 20 = Some 1
   \<and> getGroupForInstance example_service 30 = Some 2
   \<and> getGroupForInstance example_service 31 = Some 2
   \<and> terminalInstances (store example_service 1) = [20]
   \<and> (\<exists>s'. joinInstances example_service [10, 20, 30] = Inr s'
         \<and> terminalInstances (store s' 1) = [20, 10, 30]
         \<and> activeInstance s' = Some 10
         \<and> set (groups s') \<subseteq> {0, 1, 2})
   \<and> (\<exists>s'. joinInstances example_service [30, 20, 31] = Inr s'
         \<and> terminalInstances (store s' 1) = [20, 30, 31]
         \<and> activeInstance s' = Some 30
         \<and> set (groups s') \<subseteq> {0, 1, 2})"
proof -
  have wf: "wf_groups example_service"
    by (simp add: wf_groups_def example_service_def)
  have g10: "getGroupForInstance example_service 10 = Some 0" by code_simp
  have g20: "getGroupForInstance example_service 20 = Some 1" by code_simp
  have g30: "getGroupForInstance example_service 30 = Some 2" by code_simp
  have g31: "getGroupForInstance example_service 31 = Some 2" by code_simp
  have l0: "terminalInstances (store example_service 0) = [10, 11]"
    and l1: "terminalInstances (store example_service 1) = [20]"
    and l2: "terminalInstances (store example_service 2) = [30, 31]"
    and gs: "groups example_service = [0, 1, 2]"
    by (simp_all add: example_service_def)
  from joinInstances_three [OF wf _ g10 g20 g30] l0 l1 l2
  have first: "\<exists>s'. joinInstances example_service [10, 20, 30] = Inr s'
         \<and> terminalInstances (store s' 1) = [20, 10, 30]
         \<and> activeInstance s' = Some 10
         \<and> set (groups s') \<subseteq> {0, 1, 2}"
    by (auto simp: gs)
  from joinInstances_three [OF wf _ g30 g20 g31] l0 l1 l2
  have second: "\<exists>s'. joinInstances example_service [30, 20, 31] = Inr s'
         \<and> terminalInstances (store s' 1) = [20, 30, 31]
         \<and> activeInstance s' = Some 30
         \<and> set (groups s') \<subseteq> {0, 1, 2}"
    by (auto simp: gs)
  from wf g10 g20 g30 g31 l1 first second show ?thesis by blast
qed

end
